theory Spec2Isabelle
  imports Complex_Main
begin

section \<open>Text helpers of the engine\<close>

text \<open>
  Strings are \<open>char list\<close> and stand for ASCII text. A finite JavaScript number is
  modelled by the rational (\<open>rat\<close>) it denotes. The numbers of the matcher are small
  integers, quotients of two small integers and the literals \<open>0.8\<close>, \<open>0.92\<close>, on which the
  comparisons of the source and of the model agree. The pool builder subtracts and
  multiplies numbers that a request can choose freely; there the result is rounded to the
  nearest binary64 value, as the source's arithmetic does (\<open>roundDouble\<close> below).
\<close>

definition isSpace :: "char \<Rightarrow> bool" where
  \<comment> \<open>the ASCII characters matched by the regular expression class \<open>\s\<close>\<close>
  "isSpace c = (c \<in> set [CHR 0x09, CHR 0x0A, CHR 0x0B, CHR 0x0C, CHR 0x0D, CHR '' ''])"

definition isLowerAlnum :: "char \<Rightarrow> bool" where
  \<comment> \<open>the class \<open>[a-z0-9]\<close>\<close>
  "isLowerAlnum c = (c \<in> set ''abcdefghijklmnopqrstuvwxyz0123456789'')"

definition toLowerChar :: "char \<Rightarrow> char" where
  "toLowerChar c =
     (case map_of (zip ''ABCDEFGHIJKLMNOPQRSTUVWXYZ'' ''abcdefghijklmnopqrstuvwxyz'') c of
        Some d \<Rightarrow> d
      | None \<Rightarrow> c)"

definition toLowerCase :: "string \<Rightarrow> string" where
  "toLowerCase s = map toLowerChar s"

definition replaceNonAlnum :: "string \<Rightarrow> string" where
  \<comment> \<open>\<open>.replace(/[^a-z0-9\s]/g, ' ')\<close>\<close>
  "replaceNonAlnum s = map (\<lambda>c. if isLowerAlnum c \<or> isSpace c then c else CHR '' '') s"

fun collapseSpaces :: "string \<Rightarrow> string" where
  \<comment> \<open>\<open>.replace(/\s+/g, ' ')\<close>: every maximal run of whitespace becomes one blank\<close>
  "collapseSpaces [] = []"
| "collapseSpaces [c] = (if isSpace c then [CHR '' ''] else [c])"
| "collapseSpaces (c # d # cs) =
     (if isSpace c then (if isSpace d then collapseSpaces (d # cs)
                         else CHR '' '' # collapseSpaces (d # cs))
      else c # collapseSpaces (d # cs))"

definition trim :: "string \<Rightarrow> string" where
  "trim s = rev (dropWhile isSpace (rev (dropWhile isSpace s)))"

definition normalizeText :: "string \<Rightarrow> string" where
  "normalizeText v = trim (collapseSpaces (replaceNonAlnum (toLowerCase v)))"

definition makeTrackKey :: "string \<Rightarrow> string \<Rightarrow> string" where
  "makeTrackKey t a = normalizeText t @ ''|'' @ normalizeText a"

fun splitOn :: "char \<Rightarrow> string \<Rightarrow> string list" where
  \<comment> \<open>\<open>s.split(sep)\<close> for a separator of one character\<close>
  "splitOn sep [] = [[]]"
| "splitOn sep (c # cs) =
     (if c = sep then [] # splitOn sep cs
      else (case splitOn sep cs of [] \<Rightarrow> [[c]] | w # ws \<Rightarrow> (c # w) # ws))"

definition tokens :: "string \<Rightarrow> string list" where
  \<comment> \<open>\<open>s.split(' ').filter(Boolean)\<close>\<close>
  "tokens s = filter (\<lambda>t. t \<noteq> []) (splitOn (CHR '' '') s)"

fun startsWith :: "string \<Rightarrow> string \<Rightarrow> bool" where
  "startsWith s [] = True"
| "startsWith [] (n # ns) = False"
| "startsWith (c # cs) (n # ns) = (c = n \<and> startsWith cs ns)"

fun strIncludes :: "string \<Rightarrow> string \<Rightarrow> bool" where
  \<comment> \<open>\<open>hay.includes(needle)\<close>\<close>
  "strIncludes [] needle = (needle = [])"
| "strIncludes (c # cs) needle = (startsWith (c # cs) needle \<or> strIncludes cs needle)"

fun joinWith :: "string \<Rightarrow> string list \<Rightarrow> string" where
  \<comment> \<open>\<open>parts.join(sep)\<close>\<close>
  "joinWith sep [] = []"
| "joinWith sep [p] = p"
| "joinWith sep (p # q # ps) = p @ sep @ joinWith sep (q # ps)"

definition truncInt :: "rat \<Rightarrow> int" where
  \<comment> \<open>the integer part of a number, rounding towards zero\<close>
  "truncInt r = (if r < 0 then \<lceil>r\<rceil> else \<lfloor>r\<rfloor>)"

definition slice0 :: "'a list \<Rightarrow> rat \<Rightarrow> 'a list" where
  \<comment> \<open>\<open>xs.slice(0, e)\<close>: the end is truncated to an integer; a negative end counts from
      the end of the array\<close>
  "slice0 xs e =
     (let k = truncInt e
      in if k < 0 then take (nat (int (length xs) + k)) xs else take (nat k) xs)"

section \<open>Catalog matcher\<close>

record artist_ref =
  name :: string

record item =
  track_uri :: string
  track_name :: string
  artists :: "artist_ref list"

fun artistLoop :: "string \<Rightarrow> string list \<Rightarrow> artist_ref list \<Rightarrow> rat \<Rightarrow> rat" where
  \<comment> \<open>the \<open>for\<close> loop of \<open>getArtistConfidence\<close>, with its early \<open>return 1\<close>\<close>
  "artistLoop requested requestedTokens [] best = best"
| "artistLoop requested requestedTokens (a # rest) best =
     (let candidate = normalizeText (name a)
      in if candidate = [] then artistLoop requested requestedTokens rest best
         else if candidate = requested then 1
         else if strIncludes candidate requested \<or> strIncludes requested candidate
           then artistLoop requested requestedTokens rest (max best (92 / 100))
         else
           (let candidateTokens = set (tokens candidate);
                overlap = length (filter (\<lambda>t. t \<in> candidateTokens) requestedTokens);
                score = of_nat overlap / of_nat (length requestedTokens)
            in artistLoop requested requestedTokens rest (max best score)))"

definition getArtistConfidence :: "artist_ref list \<Rightarrow> string \<Rightarrow> rat" where
  "getArtistConfidence itemArtists requestedArtist =
     (let requested = normalizeText requestedArtist
      in if requested = [] then 0
         else
           (let requestedTokens = tokens requested
            in if length requestedTokens = 0 then 0
               else artistLoop requested requestedTokens itemArtists 0))"

definition pickBestTrackCandidate :: "item list \<Rightarrow> string \<Rightarrow> item option" where
  \<comment> \<open>\<open>Array.prototype.sort\<close> is stable; the comparator \<open>b.score - a.score\<close> orders by
      descending score, which is ascending order of the negated score\<close>
  "pickBestTrackCandidate items requestedArtist =
     (if length items = 0 then None
      else
        (let scored = map (\<lambda>it. (it, getArtistConfidence (artists it) requestedArtist)) items;
             sorted = sort_key (\<lambda>p. - snd p) scored
         in case sorted of
              [] \<Rightarrow> None
            | best # _ \<Rightarrow> if snd best < 8 / 10 then None else Some (fst best)))"


section \<open>Values, errors and the outside world\<close>

text \<open>
  A JavaScript number is a finite (rational) value, an infinity or \<open>NaN\<close>; the two zeros
  are not told apart. \<open>jsvalue\<close> is what \<open>JSON.parse\<close> and a request body can hold.
\<close>

datatype jsnum = NaN | NegInf | Fin rat | PosInf

datatype jsvalue =
    JUndefined
  | JNull
  | JBool bool
  | JNum jsnum
  | JStr string
  | JArr "jsvalue list"
  | JObj "(string \<times> jsvalue) list"

datatype error =
    GenerationParseError  \<comment> \<open>\<open>Error('Model did not return valid JSON')\<close>\<close>
  | JsonSyntaxError  \<comment> \<open>the \<open>SyntaxError\<close> of the second \<open>JSON.parse\<close>\<close>
  | EmptyGenerationError  \<comment> \<open>\<open>Error('Generated tracklist was empty or malformed')\<close>\<close>
  | TypeError  \<comment> \<open>a property read on \<open>null\<close> or \<open>undefined\<close>\<close>
  | GenerationCallError string  \<comment> \<open>the completion request itself was rejected\<close>
  | CatalogError "nat option"  \<comment> \<open>\<open>spotifyRequest\<close> threw, with the HTTP status if any\<close>
  | InsufficientMatchesError nat rat
      \<comment> \<open>\<open>Error(`Unable to build required track count (${matched.length}/${desiredCount})`)\<close>\<close>

record candidate =
  title :: string
  artist :: string

record found =
  uri :: string
  matchedName :: string

text \<open>
  An entry of the matched list: the source's fields \<open>requested\<close>, \<open>matched\<close> (the display
  name, here \<open>matchedName\<close>), \<open>uri\<close> and \<open>duplicated\<close> (absent in the source means
  \<open>False\<close>).
\<close>

record entry = found +
  requested :: candidate
  duplicated :: bool

record track_lists =
  matched :: "entry list"
  unmatched :: "candidate list"

record pool = track_lists +
  usedUris :: "string set"
  attemptedTrackKeys :: "string set"

record build_result = track_lists +
  duplicateFillCount :: nat

record generation_request =
  req_description :: string
  req_trackCount :: rat
  req_exclusions :: string

text \<open>
  The collaborators of the core, over an arbitrary state \<open>'w\<close> of the outside world:
  \<^item> \<open>searchTracks q\<close> is \<open>spotifyRequest(`/search?q=${encodeURIComponent(q)}&type=track&limit=5`)\<close>
    followed by \<open>data?.tracks?.items || []\<close>; \<open>Inl\<close> is the thrown error's status;
  \<^item> \<open>chatCompletion\<close> is \<open>openai.chat.completions.create\<close> on the prompt built from the
    request, followed by \<open>completion.choices?.[0]?.message?.content || ''\<close>;
  \<^item> \<open>jsonParse\<close> is \<open>JSON.parse\<close> (\<open>None\<close> when it throws);
  \<^item> \<open>toStringOther\<close> is \<open>String(v)\<close> for a value that is not a string;
  \<^item> \<open>stringToNumber\<close> is \<open>Number(s)\<close> for a string.
\<close>

record 'w services =
  searchTracks :: "string \<Rightarrow> 'w \<Rightarrow> (nat option + item list) \<times> 'w"
  chatCompletion :: "generation_request \<Rightarrow> 'w \<Rightarrow> (string + string) \<times> 'w"
  jsonParse :: "string \<Rightarrow> jsvalue option"
  toStringOther :: "jsvalue \<Rightarrow> string"
  stringToNumber :: "string \<Rightarrow> jsnum"

text \<open>
  The trace records, in order, what a run did. Three events are written by the called
  function itself, from its own parameters: \<open>Resolve\<close> by \<open>findSpotifyTrackUri\<close> (its
  candidate, and its outcome), \<open>BuildPool\<close> by \<open>buildMatchedTrackPool\<close> (its desired
  count), and \<open>Generate\<close> by \<open>generateTracklist\<close> (its track count and its excluded
  tracks). \<open>Round\<close> is written by the expansion loop after the generation call of a
  round: the number of the round, the pool at its start, the count and the exclusions of
  the call, and the outcome of the call.
\<close>

datatype event =
    Resolve candidate "error + found option"
  | BuildPool rat
  | Generate rat "candidate list"
  | Round nat pool rat "candidate list" "error + candidate list"

record 'w world =
  ext :: 'w
  trace :: "event list"

definition logEvent :: "event \<Rightarrow> 'w world \<Rightarrow> 'w world" where
  "logEvent e w = w\<lparr>trace := trace w @ [e]\<rparr>"

definition EMERGENCY_FALLBACK_TRACKS :: "candidate list" where
  "EMERGENCY_FALLBACK_TRACKS =
     [\<lparr>title = ''Blinding Lights'', artist = ''The Weeknd''\<rparr>,
      \<lparr>title = ''Dreams'', artist = ''Fleetwood Mac''\<rparr>,
      \<lparr>title = ''Electric Feel'', artist = ''MGMT''\<rparr>,
      \<lparr>title = ''Sunset Lover'', artist = ''Petit Biscuit''\<rparr>,
      \<lparr>title = ''Midnight City'', artist = ''M83''\<rparr>,
      \<lparr>title = ''Tame'', artist = ''STRFKR''\<rparr>,
      \<lparr>title = ''Intro'', artist = ''The xx''\<rparr>,
      \<lparr>title = ''Innerbloom'', artist = ''RUFUS DU SOL''\<rparr>,
      \<lparr>title = ''Something About Us'', artist = ''Daft Punk''\<rparr>,
      \<lparr>title = ''A Moment Apart'', artist = ''ODESZA''\<rparr>]"

section \<open>Binary64 arithmetic\<close>

text \<open>
  Binary64 arithmetic. \<open>bitLength n\<close> is the number of binary digits of \<open>n\<close>, and
  \<open>floorLog2 x\<close>, for a positive \<open>x\<close>, is the exponent \<open>e\<close> with
  \<open>2 ^ e \<le> x < 2 ^ (e + 1)\<close>. \<open>roundDouble x\<close> is the binary64 value of the exact result
  \<open>x\<close>: the nearest number with 53 significant binary digits, a tie going to the even
  significand, with exponents from -1022 (below which the spacing stays \<open>2 ^ -1074\<close>)
  to 1023 (above which the result is an infinity). \<open>jsMinus\<close> and \<open>jsTimes\<close> are the
  operators \<open>-\<close> and \<open>*\<close> on numbers.
\<close>

fun bitLength :: "nat \<Rightarrow> nat" where
  "bitLength n = (if n = 0 then 0 else Suc (bitLength (n div 2)))"

definition floorLog2 :: "rat \<Rightarrow> int" where
  "floorLog2 x =
     (if 1 \<le> x then int (bitLength (nat \<lfloor>x\<rfloor>)) - 1
      else - int (bitLength (nat (\<lceil>1 / x\<rceil> - 1))))"

definition roundHalfEven :: "rat \<Rightarrow> int" where
  "roundHalfEven x =
     (let f = \<lfloor>x\<rfloor>; d = x - of_int f
      in if d < 1 / 2 then f else if 1 / 2 < d then f + 1 else if even f then f else f + 1)"

definition roundDouble :: "rat \<Rightarrow> jsnum" where
  "roundDouble x =
     (if x = 0 then Fin 0
      else
        (let e = max (floorLog2 \<bar>x\<bar>) (- 1022);
             ulp = 2 powi (e - 52);
             y = of_int (roundHalfEven (\<bar>x\<bar> / ulp)) * ulp
         in if 2 powi 1024 \<le> y then (if 0 < x then PosInf else NegInf)
            else Fin (if 0 < x then y else - y)))"

fun jsMinus :: "jsnum \<Rightarrow> jsnum \<Rightarrow> jsnum" where
  "jsMinus (Fin a) (Fin b) = roundDouble (a - b)"
| "jsMinus NaN b = NaN"
| "jsMinus a NaN = NaN"
| "jsMinus PosInf PosInf = NaN"
| "jsMinus NegInf NegInf = NaN"
| "jsMinus PosInf b = PosInf"
| "jsMinus NegInf b = NegInf"
| "jsMinus (Fin a) PosInf = NegInf"
| "jsMinus (Fin a) NegInf = PosInf"

fun jsTimes :: "jsnum \<Rightarrow> jsnum \<Rightarrow> jsnum" where
  "jsTimes (Fin a) (Fin b) = roundDouble (a * b)"
| "jsTimes NaN b = NaN"
| "jsTimes a NaN = NaN"
| "jsTimes (Fin a) PosInf = (if a = 0 then NaN else if 0 < a then PosInf else NegInf)"
| "jsTimes (Fin a) NegInf = (if a = 0 then NaN else if 0 < a then NegInf else PosInf)"
| "jsTimes PosInf (Fin b) = (if b = 0 then NaN else if 0 < b then PosInf else NegInf)"
| "jsTimes NegInf (Fin b) = (if b = 0 then NaN else if 0 < b then NegInf else PosInf)"
| "jsTimes PosInf PosInf = PosInf"
| "jsTimes NegInf NegInf = PosInf"
| "jsTimes PosInf NegInf = NegInf"
| "jsTimes NegInf PosInf = NegInf"

fun finiteValue :: "jsnum \<Rightarrow> rat" where
  \<comment> \<open>the value of a number known to be finite\<close>
  "finiteValue (Fin r) = r"
| "finiteValue n = 0"

section \<open>Track count clamp\<close>

definition falsyNum :: "jsnum \<Rightarrow> bool" where
  "falsyNum n = (n = NaN \<or> n = Fin 0)"

fun mathMax :: "jsnum \<Rightarrow> jsnum \<Rightarrow> jsnum" where
  "mathMax NaN b = NaN"
| "mathMax a NaN = NaN"
| "mathMax PosInf b = PosInf"
| "mathMax a PosInf = PosInf"
| "mathMax NegInf b = b"
| "mathMax a NegInf = a"
| "mathMax (Fin x) (Fin y) = Fin (max x y)"

fun mathMin :: "jsnum \<Rightarrow> jsnum \<Rightarrow> jsnum" where
  "mathMin NaN b = NaN"
| "mathMin a NaN = NaN"
| "mathMin NegInf b = NegInf"
| "mathMin a NegInf = NegInf"
| "mathMin PosInf b = b"
| "mathMin a PosInf = a"
| "mathMin (Fin x) (Fin y) = Fin (min x y)"

fun toNumber :: "'w services \<Rightarrow> jsvalue \<Rightarrow> jsnum" where
  \<comment> \<open>\<open>Number(value)\<close>; an array or object is converted through its string form\<close>
  "toNumber sv JUndefined = NaN"
| "toNumber sv JNull = Fin 0"
| "toNumber sv (JBool b) = Fin (if b then 1 else 0)"
| "toNumber sv (JNum n) = n"
| "toNumber sv (JStr s) = stringToNumber sv s"
| "toNumber sv v = stringToNumber sv (toStringOther sv v)"

definition clampTrackCount :: "'w services \<Rightarrow> jsvalue \<Rightarrow> jsnum" where
  "clampTrackCount sv v =
     mathMin (mathMax (if falsyNum (toNumber sv v) then Fin 20 else toNumber sv v) (Fin 5)) (Fin 50)"

section \<open>Candidate generator\<close>

definition braceBlock :: "string \<Rightarrow> string option" where
  \<comment> \<open>\<open>text.match(/\{[\s\S]*\}/)\<close>: from the first \<open>{\<close> to the last \<open>}\<close> after it\<close>
  "braceBlock text =
     (let t = dropWhile (\<lambda>c. c \<noteq> CHR ''{'') text;
          r = rev (dropWhile (\<lambda>c. c \<noteq> CHR ''}'') (rev t))
      in if r = [] then None else Some r)"

definition parsePotentialJson :: "'w services \<Rightarrow> string \<Rightarrow> error + jsvalue" where
  "parsePotentialJson sv text =
     (case jsonParse sv text of
        Some v \<Rightarrow> Inr v
      | None \<Rightarrow>
          (case braceBlock text of
             None \<Rightarrow> Inl GenerationParseError
           | Some m \<Rightarrow> (case jsonParse sv m of Some v \<Rightarrow> Inr v | None \<Rightarrow> Inl JsonSyntaxError)))"

fun getProp :: "jsvalue \<Rightarrow> string \<Rightarrow> jsvalue" where
  \<comment> \<open>\<open>v?.key\<close> for the keys \<open>tracks\<close>, \<open>title\<close> and \<open>artist\<close>, which only an object can hold\<close>
  "getProp (JObj kvs) k = (case map_of kvs k of Some v \<Rightarrow> v | None \<Rightarrow> JUndefined)"
| "getProp v k = JUndefined"

fun truthy :: "jsvalue \<Rightarrow> bool" where
  "truthy JUndefined = False"
| "truthy JNull = False"
| "truthy (JBool b) = b"
| "truthy (JNum n) = (\<not> falsyNum n)"
| "truthy (JStr s) = (s \<noteq> [])"
| "truthy (JArr vs) = True"
| "truthy (JObj kvs) = True"

fun jsString :: "'w services \<Rightarrow> jsvalue \<Rightarrow> string" where
  "jsString sv (JStr s) = s"
| "jsString sv v = toStringOther sv v"

definition hasTitleAndArtist :: "jsvalue \<Rightarrow> bool" where
  \<comment> \<open>\<open>t?.title && t?.artist\<close>\<close>
  "hasTitleAndArtist t = (truthy (getProp t ''title'') \<and> truthy (getProp t ''artist''))"

definition toCandidate :: "'w services \<Rightarrow> jsvalue \<Rightarrow> candidate" where
  "toCandidate sv t =
     \<lparr>title = trim (jsString sv (getProp t ''title'')),
      artist = trim (jsString sv (getProp t ''artist''))\<rparr>"

definition tracksOfParsed :: "'w services \<Rightarrow> jsvalue \<Rightarrow> rat \<Rightarrow> error + candidate list" where
  \<comment> \<open>lines 182 to 189 of \<open>generateTracklist\<close>; \<open>parsed.tracks\<close> throws on \<open>null\<close>\<close>
  "tracksOfParsed sv parsed trackCount =
     (if parsed = JNull \<or> parsed = JUndefined then Inl TypeError
      else
        (case getProp parsed ''tracks'' of
           JArr ts \<Rightarrow>
             if length ts = 0 then Inl EmptyGenerationError
             else Inr (map (toCandidate sv) (slice0 (filter hasTitleAndArtist ts) trackCount))
         | _ \<Rightarrow> Inl EmptyGenerationError))"

definition generateTracklist ::
  "'w services \<Rightarrow> string \<Rightarrow> rat \<Rightarrow> candidate list \<Rightarrow> 'w world \<Rightarrow> (error + candidate list) \<times> 'w world"
where
  "generateTracklist sv description trackCount excludedTracks w0 =
     (let w = logEvent (Generate trackCount excludedTracks) w0;
          exclusions =
            joinWith ''; '' (map (\<lambda>t. title t @ '' - '' @ artist t) (take 40 excludedTracks));
          request = \<lparr>req_description = description, req_trackCount = trackCount,
                     req_exclusions = exclusions\<rparr>
      in case chatCompletion sv request (ext w) of
           (Inl msg, x) \<Rightarrow> (Inl (GenerationCallError msg), w\<lparr>ext := x\<rparr>)
         | (Inr content, x) \<Rightarrow>
             (case parsePotentialJson sv content of
                Inl e \<Rightarrow> (Inl e, w\<lparr>ext := x\<rparr>)
              | Inr parsed \<Rightarrow> (tracksOfParsed sv parsed trackCount, w\<lparr>ext := x\<rparr>)))"

section \<open>Resolution against the catalog\<close>

fun queryLoop ::
  "'w services \<Rightarrow> string \<Rightarrow> string list \<Rightarrow> 'w \<Rightarrow> (error + found option) \<times> 'w"
where
  \<comment> \<open>the \<open>for (const query of queries)\<close> loop of \<open>findSpotifyTrackUri\<close>\<close>
  "queryLoop sv requestedArtist [] x = (Inr None, x)"
| "queryLoop sv requestedArtist (q # qs) x =
     (case searchTracks sv q x of
        (Inl status, x') \<Rightarrow> (Inl (CatalogError status), x')
      | (Inr items, x') \<Rightarrow>
          (case pickBestTrackCandidate items requestedArtist of
             None \<Rightarrow> queryLoop sv requestedArtist qs x'
           | Some best \<Rightarrow>
               if track_uri best \<noteq> []
               then (Inr (Some \<lparr>uri = track_uri best,
                                matchedName = track_name best @ '' - ''
                                  @ joinWith '', '' (map name (artists best))\<rparr>), x')
               else queryLoop sv requestedArtist qs x'))"

definition findSpotifyTrackUri ::
  "'w services \<Rightarrow> candidate \<Rightarrow> 'w world \<Rightarrow> (error + found option) \<times> 'w world"
where
  "findSpotifyTrackUri sv c w =
     (let queries = [''track:'' @ title c @ '' artist:'' @ artist c, title c @ '' '' @ artist c]
      in case queryLoop sv (artist c) queries (ext w) of
           (r, x) \<Rightarrow> (r, logEvent (Resolve c r) (w\<lparr>ext := x\<rparr>)))"

definition pushMatch :: "candidate \<Rightarrow> found option \<Rightarrow> pool \<Rightarrow> pool" where
  \<comment> \<open>lines 260 to 271: what one resolved candidate does to the pool\<close>
  "pushMatch c m p =
     (case m of
        None \<Rightarrow> p\<lparr>unmatched := unmatched p @ [c]\<rparr>
      | Some f \<Rightarrow>
          if uri f \<noteq> [] then
            (if uri f \<notin> usedUris p
             then p\<lparr>usedUris := insert (uri f) (usedUris p),
                     matched := matched p @ [\<lparr>uri = uri f, matchedName = matchedName f,
                                              requested = c, duplicated = False\<rparr>]\<rparr>
             else p)
          else p\<lparr>unmatched := unmatched p @ [c]\<rparr>)"

fun matchCandidatesToSpotify ::
  "'w services \<Rightarrow> candidate list \<Rightarrow> pool \<Rightarrow> 'w world \<Rightarrow> (error + pool) \<times> 'w world"
where
  "matchCandidatesToSpotify sv [] p w = (Inr p, w)"
| "matchCandidatesToSpotify sv (c # cs) p w =
     (let key = makeTrackKey (title c) (artist c)
      in if key \<in> attemptedTrackKeys p then matchCandidatesToSpotify sv cs p w
         else
           (case findSpotifyTrackUri sv c w of
              (Inl e, w') \<Rightarrow> (Inl e, w')
            | (Inr m, w') \<Rightarrow>
                matchCandidatesToSpotify sv cs
                  (pushMatch c m (p\<lparr>attemptedTrackKeys := insert key (attemptedTrackKeys p)\<rparr>)) w'))"

section \<open>Reconciliation engine\<close>

definition emptyPool :: pool where
  "emptyPool = \<lparr>matched = [], unmatched = [], usedUris = {}, attemptedTrackKeys = {}\<rparr>"

definition poolShort :: "rat \<Rightarrow> pool \<Rightarrow> bool" where
  \<comment> \<open>\<open>matched.length < desiredCount\<close>\<close>
  "poolShort desiredCount p = (of_nat (length (matched p)) < desiredCount)"

definition generateCountFor :: "rat \<Rightarrow> pool \<Rightarrow> rat" where
  \<comment> \<open>lines 287 and 288: \<open>needed\<close> and \<open>generateCount\<close>, which is always finite
      (\<open>generateCountFor_finite\<close> below)\<close>
  "generateCountFor desiredCount p =
     (let needed = jsMinus (Fin desiredCount) (Fin (of_nat (length (matched p))))
      in finiteValue (mathMin (Fin 50) (mathMax (jsTimes needed (Fin 3)) (Fin 8))))"

definition excludedTracksFor :: "pool \<Rightarrow> candidate list" where
  \<comment> \<open>line 290\<close>
  "excludedTracksFor p = take 80 (map requested (matched p) @ unmatched p)"

function expandLoop ::
  "'w services \<Rightarrow> string \<Rightarrow> rat \<Rightarrow> nat \<Rightarrow> pool \<Rightarrow> 'w world \<Rightarrow> (error + pool) \<times> 'w world"
where
  \<comment> \<open>the \<open>while\<close> loop of lines 285 to 298; \<open>attempt\<close> is the counter before the round\<close>
  "expandLoop sv description desiredCount attempt p w =
     (if poolShort desiredCount p \<and> attempt < 8 then
        (case generateTracklist sv description (generateCountFor desiredCount p)
                (excludedTracksFor p) w of
           (Inl e, w1) \<Rightarrow>
             (Inl e, logEvent (Round (attempt + 1) p (generateCountFor desiredCount p)
                                 (excludedTracksFor p) (Inl e)) w1)
         | (Inr generated, w1) \<Rightarrow>
             (case matchCandidatesToSpotify sv generated p
                     (logEvent (Round (attempt + 1) p (generateCountFor desiredCount p)
                                  (excludedTracksFor p) (Inr generated)) w1) of
                (Inl e, w2) \<Rightarrow> (Inl e, w2)
              | (Inr p', w2) \<Rightarrow> expandLoop sv description desiredCount (attempt + 1) p' w2))
      else (Inr p, w))"
  by pat_completeness auto
termination
  by (relation "measure (\<lambda>(sv, description, desiredCount, attempt, p, w). 8 - attempt)") auto

definition fillPool ::
  "'w services \<Rightarrow> string \<Rightarrow> rat \<Rightarrow> candidate list \<Rightarrow> 'w world \<Rightarrow> (error + pool) \<times> 'w world"
where
  \<comment> \<open>lines 276 to 308: seeding, the expansion rounds and the emergency fallback\<close>
  "fillPool sv description desiredCount seedCandidates w =
     (case matchCandidatesToSpotify sv seedCandidates emptyPool w of
        (Inl e, w1) \<Rightarrow> (Inl e, w1)
      | (Inr p1, w1) \<Rightarrow>
          (case expandLoop sv description desiredCount 0 p1 w1 of
             (Inl e, w2) \<Rightarrow> (Inl e, w2)
           | (Inr p2, w2) \<Rightarrow>
               if poolShort desiredCount p2
               then matchCandidatesToSpotify sv EMERGENCY_FALLBACK_TRACKS p2 w2
               else (Inr p2, w2)))"

definition cloneEntry :: "entry \<Rightarrow> entry" where
  \<comment> \<open>lines 316 to 321\<close>
  "cloneEntry clone =
     \<lparr>uri = uri clone, matchedName = matchedName clone @ '' (duplicate fill)'',
      requested = requested clone, duplicated = True\<rparr>"

function dupFillLoop ::
  "entry list \<Rightarrow> rat \<Rightarrow> entry list \<Rightarrow> nat \<Rightarrow> nat \<Rightarrow> error + entry list \<times> nat"
where
  \<comment> \<open>the \<open>while\<close> loop of lines 314 to 324 over \<open>matched\<close>, \<open>idx\<close> and
      \<open>duplicateFillCount\<close>; reading \<open>clone.requested\<close> of an empty \<open>base\<close> throws\<close>
  "dupFillLoop base desiredCount m idx cnt =
     (if of_nat (length m) < desiredCount then
        (if base = [] then Inl TypeError
         else dupFillLoop base desiredCount
                (m @ [cloneEntry (base ! (idx mod length base))]) (idx + 1) (cnt + 1))
      else Inr (m, cnt))"
  by pat_completeness auto
termination
proof (relation "measure (\<lambda>(base, desiredCount, m, idx, cnt). nat \<lceil>desiredCount\<rceil> - length m)")
  show "wf (measure (\<lambda>(base, desiredCount :: rat, m :: entry list, idx :: nat, cnt :: nat).
              nat \<lceil>desiredCount\<rceil> - length m))"
    by simp
next
  fix base m :: "entry list" and desiredCount :: rat and idx cnt :: nat
  assume short: "of_nat (length m) < desiredCount"
  have "desiredCount \<le> of_int \<lceil>desiredCount\<rceil>" by (rule le_of_int_ceiling)
  with short have "(of_nat (length m) :: rat) < of_int \<lceil>desiredCount\<rceil>"
    by (rule less_le_trans)
  then have "(of_int (int (length m)) :: rat) < of_int \<lceil>desiredCount\<rceil>" by simp
  then have "int (length m) < \<lceil>desiredCount\<rceil>" by (simp only: of_int_less_iff)
  then show "((base, desiredCount, m @ [cloneEntry (base ! (idx mod length base))], idx + 1, cnt + 1),
              (base, desiredCount, m, idx, cnt))
             \<in> measure (\<lambda>(base, desiredCount, m, idx, cnt). nat \<lceil>desiredCount\<rceil> - length m)"
    by simp
qed

definition duplicateFill :: "rat \<Rightarrow> entry list \<Rightarrow> error + entry list \<times> nat" where
  \<comment> \<open>lines 310 to 325, with the guard \<open>matched.length < desiredCount && matched.length > 0\<close>\<close>
  "duplicateFill desiredCount m =
     (if of_nat (length m) < desiredCount \<and> length m > 0
      then dupFillLoop m desiredCount m 0 0
      else Inr (m, 0))"

definition finishPool :: "rat \<Rightarrow> pool \<Rightarrow> error + build_result" where
  \<comment> \<open>lines 310 to 335: duplicate fill, the final length check and the returned object\<close>
  "finishPool desiredCount p =
     (case duplicateFill desiredCount (matched p) of
        Inl e \<Rightarrow> Inl e
      | Inr (m, cnt) \<Rightarrow>
          if of_nat (length m) < desiredCount
          then Inl (InsufficientMatchesError (length m) desiredCount)
          else Inr \<lparr>matched = slice0 m desiredCount, unmatched = unmatched p,
                    duplicateFillCount = cnt\<rparr>)"

definition buildMatchedTrackPool ::
  "'w services \<Rightarrow> string \<Rightarrow> rat \<Rightarrow> candidate list \<Rightarrow> 'w world
     \<Rightarrow> (error + build_result) \<times> 'w world"
where
  "buildMatchedTrackPool sv description desiredCount seedCandidates w =
     (case fillPool sv description desiredCount seedCandidates
             (logEvent (BuildPool desiredCount) w) of
        (Inl e, w') \<Rightarrow> (Inl e, w')
      | (Inr p, w') \<Rightarrow> (finishPool desiredCount p, w'))"

section \<open>Callers of the engine\<close>

text \<open>
  \<open>createPlaylistFromInputs\<close> is modelled up to the pool it obtains (lines 382 to 398);
  the creation of the playlist from the returned list is left out. \<open>approvedTracks\<close> is
  the list of approved entries, of which only \<open>requested\<close> is read. The clamp always
  gives a finite number (\<open>clampTrackCount_finite\<close> below), so the last branch is never
  taken.
\<close>

definition createPlaylistFromInputs ::
  "'w services \<Rightarrow> string \<Rightarrow> jsvalue \<Rightarrow> entry list \<Rightarrow> 'w world
     \<Rightarrow> (error + build_result) \<times> 'w world"
where
  "createPlaylistFromInputs sv description trackCount approvedTracks w =
     (case clampTrackCount sv trackCount of
        Fin count \<Rightarrow>
          (let seedCandidates =
                 map (\<lambda>t. \<lparr>title = title (requested t), artist = artist (requested t)\<rparr>)
                   (filter (\<lambda>t. title (requested t) \<noteq> [] \<and> artist (requested t) \<noteq> [])
                      approvedTracks)
           in if length seedCandidates = 0 then
                (case generateTracklist sv description count [] w of
                   (Inl e, w1) \<Rightarrow> (Inl e, w1)
                 | (Inr initialGenerated, w1) \<Rightarrow>
                     buildMatchedTrackPool sv description count initialGenerated w1)
              else buildMatchedTrackPool sv description count seedCandidates w)
      | _ \<Rightarrow> (Inl TypeError, w))"

text \<open>
  The resolution loop of the handler of \<open>/api/preview-playlist\<close> (lines 529 to 556): it
  records the key of every candidate and resolves every candidate. A preview row is the
  requested candidate with the matched name, if any.
\<close>

record preview = pool +
  previewRows :: "(candidate \<times> string option) list"

definition emptyPreview :: preview where
  "emptyPreview = \<lparr>matched = [], unmatched = [], usedUris = {}, attemptedTrackKeys = {},
                   previewRows = []\<rparr>"

definition previewStep :: "candidate \<Rightarrow> found option \<Rightarrow> preview \<Rightarrow> preview" where
  \<comment> \<open>lines 534 to 555\<close>
  "previewStep c m s =
     (case m of
        None \<Rightarrow> s\<lparr>unmatched := unmatched s @ [c], previewRows := previewRows s @ [(c, None)]\<rparr>
      | Some f \<Rightarrow>
          if uri f \<noteq> [] then
            (if uri f \<notin> usedUris s
             then s\<lparr>usedUris := insert (uri f) (usedUris s),
                     matched := matched s @ [\<lparr>uri = uri f, matchedName = matchedName f,
                                              requested = c, duplicated = False\<rparr>],
                     previewRows := previewRows s @ [(c, Some (matchedName f))]\<rparr>
             else s\<lparr>previewRows := previewRows s @ [(c, Some (matchedName f))]\<rparr>)
          else s\<lparr>unmatched := unmatched s @ [c], previewRows := previewRows s @ [(c, None)]\<rparr>)"

fun previewLoop ::
  "'w services \<Rightarrow> candidate list \<Rightarrow> preview \<Rightarrow> 'w world \<Rightarrow> (error + preview) \<times> 'w world"
where
  "previewLoop sv [] s w = (Inr s, w)"
| "previewLoop sv (c # cs) s w =
     (let key = makeTrackKey (title c) (artist c);
          s1 = (if key \<notin> attemptedTrackKeys s
                then s\<lparr>attemptedTrackKeys := insert key (attemptedTrackKeys s)\<rparr> else s)
      in case findSpotifyTrackUri sv c w of
           (Inl e, w') \<Rightarrow> (Inl e, w')
         | (Inr m, w') \<Rightarrow> previewLoop sv cs (previewStep c m s1) w')"

definition previewPlaylist ::
  "'w services \<Rightarrow> string \<Rightarrow> jsvalue \<Rightarrow> 'w world \<Rightarrow> (error + preview) \<times> 'w world"
where
  \<comment> \<open>lines 520 to 556 of the handler, after its two request checks\<close>
  "previewPlaylist sv description trackCount w =
     (case clampTrackCount sv trackCount of
        Fin count \<Rightarrow>
          (case generateTracklist sv description count [] w of
             (Inl e, w1) \<Rightarrow> (Inl e, w1)
           | (Inr generatedTracks, w1) \<Rightarrow> previewLoop sv generatedTracks emptyPreview w1)
      | _ \<Rightarrow> (Inl TypeError, w))"

section \<open>Predicates on traces, errors and pools\<close>

fun isResolve :: "event \<Rightarrow> bool" where
  "isResolve (Resolve c r) = True"
| "isResolve e = False"

fun isRound :: "event \<Rightarrow> bool" where
  "isRound (Round n p c x r) = True"
| "isRound e = False"

fun isGenerate :: "event \<Rightarrow> bool" where
  "isGenerate (Generate n x) = True"
| "isGenerate e = False"

fun isInsufficient :: "error \<Rightarrow> bool" where
  "isInsufficient (InsufficientMatchesError a d) = True"
| "isInsufficient e = False"

definition resolvedKeys :: "event list \<Rightarrow> string list" where
  \<comment> \<open>the track keys of the candidates handed to \<open>findSpotifyTrackUri\<close>, in order\<close>
  "resolvedKeys ev =
     concat (map (\<lambda>e. case e of Resolve c r \<Rightarrow> [makeTrackKey (title c) (artist c)] | _ \<Rightarrow> []) ev)"

text \<open>
  What holds of the pool before duplicate fill: \<open>usedUris\<close> is the set of the uris of the
  matched entries, these are pairwise distinct, and no entry is marked \<open>duplicated\<close>.
\<close>

definition poolInv :: "pool \<Rightarrow> bool" where
  "poolInv p =
     (usedUris p = uri ` set (matched p) \<and> distinct (map uri (matched p))
      \<and> (\<forall>e\<in>set (matched p). \<not> duplicated e))"

text \<open>
  What holds of the events \<open>ev\<close> of the expansion loop entered with counter \<open>attempt\<close>
  and left with result \<open>r\<close>.
\<close>

definition expansionTrace :: "rat \<Rightarrow> nat \<Rightarrow> error + 'a \<Rightarrow> event list \<Rightarrow> bool" where
  "expansionTrace desiredCount attempt r ev =
     ((\<forall>e\<in>set ev. isResolve e \<or> isRound e \<or> isGenerate e)
      \<and> length (filter isRound ev) \<le> 8 - attempt
      \<and> (\<forall>n q c x out. Round n q c x out \<in> set ev \<longrightarrow>
            c = generateCountFor desiredCount q \<and> x = excludedTracksFor q
            \<and> poolShort desiredCount q \<and> attempt < n \<and> n \<le> 8)
      \<and> (\<forall>n q c x e. Round n q c x (Inl e) \<in> set ev \<longrightarrow>
            r = Inl e \<and> last ev = Round n q c x (Inl e)))"

text \<open>
  \<open>resolvedIn U ev\<close>: every resolution in \<open>ev\<close> returned normally, and each track it
  found has its uri in \<open>U\<close>. \<open>stageOK p ev r\<close>: what holds of the events \<open>ev\<close> of a stage
  of the engine entered with pool \<open>p\<close> and left with result \<open>r\<close>.
\<close>

definition resolvedIn :: "string set \<Rightarrow> event list \<Rightarrow> bool" where
  "resolvedIn U ev =
     (\<forall>c out. Resolve c out \<in> set ev \<longrightarrow>
        out = Inr None \<or> (\<exists>f. out = Inr (Some f) \<and> uri f \<in> U))"

definition stageOK :: "pool \<Rightarrow> event list \<Rightarrow> error + pool \<Rightarrow> bool" where
  "stageOK p ev r =
     (distinct (resolvedKeys ev)
      \<and> set (resolvedKeys ev) \<inter> attemptedTrackKeys p = {}
      \<and> (\<forall>p'. r = Inr p' \<longrightarrow>
            attemptedTrackKeys p' = attemptedTrackKeys p \<union> set (resolvedKeys ev)
            \<and> usedUris p \<subseteq> usedUris p'
            \<and> resolvedIn (usedUris p') ev))"

text \<open>
  The pool can be read off the trace: \<open>replayEvent p e\<close> is what a logged resolution
  does to the pool \<open>p\<close> (the key of its candidate is recorded, and its outcome is pushed
  as in \<open>matchCandidatesToSpotify\<close>), and \<open>poolAfter p ev\<close> is the pool after the
  events \<open>ev\<close>. \<open>requestsOf p ev\<close> lists the calls of \<open>generateTracklist\<close> logged in
  \<open>ev\<close>, each with the pool at the time of the call and the count and the exclusions it
  was given.
\<close>

fun replayEvent :: "pool \<Rightarrow> event \<Rightarrow> pool" where
  "replayEvent p (Resolve c (Inr m)) =
     pushMatch c m
       (p\<lparr>attemptedTrackKeys := insert (makeTrackKey (title c) (artist c)) (attemptedTrackKeys p)\<rparr>)"
| "replayEvent p e = p"

definition poolAfter :: "pool \<Rightarrow> event list \<Rightarrow> pool" where
  "poolAfter p ev = foldl replayEvent p ev"

fun requestsOf :: "pool \<Rightarrow> event list \<Rightarrow> (pool \<times> rat \<times> candidate list) list" where
  "requestsOf p [] = []"
| "requestsOf p (Generate n x # ev) = (p, n, x) # requestsOf p ev"
| "requestsOf p (e # ev) = requestsOf (replayEvent p e) ev"

text \<open>Concrete collaborators and inputs for the checks on concrete runs.\<close>

definition demoServices ::
  "(string \<Rightarrow> item list) \<Rightarrow> string + string \<Rightarrow> jsvalue \<Rightarrow> unit services"
where
  "demoServices results reply parsed =
     \<lparr>searchTracks = (\<lambda>q x. (Inr (results q), x)),
      chatCompletion = (\<lambda>request x. (reply, x)),
      jsonParse = (\<lambda>s. if s = ''{}'' then Some parsed else None),
      toStringOther = (\<lambda>v. []),
      stringToNumber = (\<lambda>s. NaN)\<rparr>"

definition anyTrack :: "string \<Rightarrow> item list" where
  \<comment> \<open>every query finds one track by the artist \<open>zz\<close>, with the query as its uri\<close>
  "anyTrack q = [\<lparr>track_uri = q, track_name = ''n'', artists = [\<lparr>name = ''zz''\<rparr>]\<rparr>]"

definition noTrack :: "string \<Rightarrow> item list" where
  "noTrack q = []"

definition tracksJson :: "(string \<times> string) list \<Rightarrow> jsvalue" where
  \<comment> \<open>the object \<open>{tracks: [{title, artist}, ...]}\<close>\<close>
  "tracksJson ts =
     JObj [(''tracks'', JArr (map (\<lambda>(t, a). JObj [(''title'', JStr t), (''artist'', JStr a)]) ts))]"

definition w0 :: "unit world" where
  "w0 = \<lparr>ext = (), trace = []\<rparr>"

definition demoSeeds :: "string list \<Rightarrow> candidate list" where
  "demoSeeds ts = map (\<lambda>t. \<lparr>title = t, artist = ''zz''\<rparr>) ts"

definition demoEntry :: "string \<Rightarrow> entry" where
  \<comment> \<open>the entry that resolving \<open>demoSeeds [t]\<close> against \<open>anyTrack\<close> appends\<close>
  "demoEntry t = \<lparr>uri = ''track:'' @ t @ '' artist:zz'', matchedName = ''n - zz'',
                  requested = \<lparr>title = t, artist = ''zz''\<rparr>, duplicated = False\<rparr>"

definition demoPool :: "string list \<Rightarrow> pool" where
  "demoPool ts = \<lparr>matched = map demoEntry ts, unmatched = [],
                  usedUris = set (map uri (map demoEntry ts)), attemptedTrackKeys = {}\<rparr>"

section \<open>Reference formulations of the artist score\<close>

text \<open>
  The score of one normalized candidate name against the normalized requested name:
  1 for equality, 0.92 for containment in either direction, otherwise the share of the
  requested tokens that occur among the candidate's tokens.
\<close>

definition candidateScore :: "string \<Rightarrow> string \<Rightarrow> rat" where
  "candidateScore requestedName candidate =
     (if candidate = requestedName then 1
      else if strIncludes candidate requestedName \<or> strIncludes requestedName candidate then 92 / 100
      else of_nat (length (filter (\<lambda>t. t \<in> set (tokens candidate)) (tokens requestedName)))
             / of_nat (length (tokens requestedName)))"

text \<open>
  \<open>scoreArtist\<close> follows the specification's wording: the maximum of the candidate scores
  over all candidate names, and 0 when the requested name normalizes to the empty string.
  \<open>scoreNamedArtists\<close> takes the maximum over the candidates whose normalized name is not
  empty.
\<close>

definition scoreArtist :: "string list \<Rightarrow> string \<Rightarrow> rat" where
  "scoreArtist candidateArtistNames requestedArtist =
     (let requestedName = normalizeText requestedArtist
      in if requestedName = [] then 0
         else foldr max (map (\<lambda>n. candidateScore requestedName (normalizeText n))
                candidateArtistNames) 0)"

definition scoreNamedArtists :: "string list \<Rightarrow> string \<Rightarrow> rat" where
  "scoreNamedArtists candidateArtistNames requestedArtist =
     (let requestedName = normalizeText requestedArtist
      in if requestedName = [] then 0
         else foldr max (map (\<lambda>n. candidateScore requestedName (normalizeText n))
                (filter (\<lambda>n. normalizeText n \<noteq> []) candidateArtistNames)) 0)"

text \<open>
  Variants of a name. Two characters are the same letter when they are equal or are the
  capital and the small form of one letter; a separator is a punctuation character or a
  whitespace character. \<open>nameVariant s t\<close> holds when \<open>t\<close> is obtained from \<open>s\<close> by
  changes of these kinds, in any number and in either direction: the case of a letter is
  changed; a separator is replaced by another separator; a separator is written next to a
  separator; a separator is written at the start or at the end.
\<close>

definition normalChar :: "char \<Rightarrow> char" where
  \<comment> \<open>what the first two steps of \<open>normalizeText\<close> make of one character\<close>
  "normalChar c =
     (if isLowerAlnum (toLowerChar c) \<or> isSpace (toLowerChar c) then toLowerChar c
      else CHR '' '')"

definition sameLetter :: "char \<Rightarrow> char \<Rightarrow> bool" where
  "sameLetter c d =
     (c = d \<or> (c, d) \<in> set (zip ''ABCDEFGHIJKLMNOPQRSTUVWXYZ'' ''abcdefghijklmnopqrstuvwxyz'')
      \<or> (d, c) \<in> set (zip ''ABCDEFGHIJKLMNOPQRSTUVWXYZ'' ''abcdefghijklmnopqrstuvwxyz''))"

definition isPunctuation :: "char \<Rightarrow> bool" where
  \<comment> \<open>the ASCII punctuation characters; the last four are the double quote, the
      apostrophe, the backslash and the grave accent\<close>
  "isPunctuation c =
     (c \<in> set (''!#$%&()*+,-./:;<=>?@[]^_{|}~'' @ [CHR 0x22, CHR 0x27, CHR 0x5C, CHR 0x60]))"

definition isSeparator :: "char \<Rightarrow> bool" where
  "isSeparator c = (isPunctuation c \<or> isSpace c)"

inductive nameVariant :: "string \<Rightarrow> string \<Rightarrow> bool" where
  same: "nameVariant s s"
| swap: "nameVariant s t \<Longrightarrow> nameVariant t s"
| chain: "nameVariant s t \<Longrightarrow> nameVariant t u \<Longrightarrow> nameVariant s u"
| letter: "sameLetter c d \<Longrightarrow> nameVariant (a @ c # b) (a @ d # b)"
| separator: "isSeparator c \<Longrightarrow> isSeparator d \<Longrightarrow> nameVariant (a @ c # b) (a @ d # b)"
| repeated: "isSeparator c \<Longrightarrow> isSeparator d \<Longrightarrow> nameVariant (a @ c # b) (a @ c # d # b)"
| leading: "isSeparator c \<Longrightarrow> nameVariant s (c # s)"
| trailing: "isSeparator c \<Longrightarrow> nameVariant s (s @ [c])"

definition weeknd_item :: "string \<Rightarrow> string \<Rightarrow> item" where
  \<comment> \<open>a search result with one artist, for the concrete checks below\<close>
  "weeknd_item u a = \<lparr>track_uri = u, track_name = ''Blinding Lights'', artists = [\<lparr>name = a\<rparr>]\<rparr>"

section \<open>Selection of the best search result\<close>

lemma hd_insort_key:
  "hd (insort_key f x ys) = (if ys = [] \<or> f x \<le> f (hd ys) then x else hd ys)"
  by (cases ys) auto

lemma sort_key_ne: "xs \<noteq> [] \<Longrightarrow> sort_key f xs \<noteq> []"
  by (metis length_sort length_0_conv)

lemma hd_sort_key_min:
  "xs \<noteq> [] \<Longrightarrow> hd (sort_key f xs) \<in> set xs \<and> (\<forall>j\<in>set xs. f (hd (sort_key f xs)) \<le> f j)"
proof (induction xs)
  case Nil then show ?case by simp
next
  case (Cons x xs)
  show ?case
  proof (cases "xs = []")
    case True then show ?thesis by simp
  next
    case False
    with Cons.IH have ih: "hd (sort_key f xs) \<in> set xs" "\<forall>j\<in>set xs. f (hd (sort_key f xs)) \<le> f j"
      by auto
    from False have ne: "sort_key f xs \<noteq> []" by (rule sort_key_ne)
    show ?thesis using ih ne by (auto simp: hd_insort_key)
  qed
qed

lemma find_hd_sort_key:
  "xs \<noteq> [] \<Longrightarrow> find (\<lambda>i. \<forall>j\<in>set xs. f i \<le> f j) xs = Some (hd (sort_key f xs))"
proof (induction xs)
  case Nil then show ?case by simp
next
  case (Cons x xs)
  show ?case
  proof (cases "xs = []")
    case True then show ?thesis by simp
  next
    case False
    let ?h = "hd (sort_key f xs)"
    from False have ne: "sort_key f xs \<noteq> []" by (rule sort_key_ne)
    from False have mn: "?h \<in> set xs" "\<forall>j\<in>set xs. f ?h \<le> f j"
      using hd_sort_key_min [of xs f] by auto
    from False Cons.IH have ih: "find (\<lambda>i. \<forall>j\<in>set xs. f i \<le> f j) xs = Some ?h" by simp
    show ?thesis
    proof (cases "f x \<le> f ?h")
      case True
      then have "\<forall>j\<in>set (x # xs). f x \<le> f j" using mn by auto
      then show ?thesis using True ne by (simp add: hd_insort_key)
    next
      case lt: False
      then have nx: "\<not> (\<forall>j\<in>set (x # xs). f x \<le> f j)" using mn by auto
      have "find (\<lambda>i. \<forall>j\<in>set (x # xs). f i \<le> f j) xs = find (\<lambda>i. \<forall>j\<in>set xs. f i \<le> f j) xs"
      proof (rule find_cong [OF refl])
        fix i assume "i \<in> set xs"
        show "(\<forall>j\<in>set (x # xs). f i \<le> f j) = (\<forall>j\<in>set xs. f i \<le> f j)"
          using lt mn by auto
      qed
      then have a: "find (\<lambda>i. \<forall>j\<in>set (x # xs). f i \<le> f j) xs = Some ?h"
        using ih by (rule trans)
      have b: "find (\<lambda>i. \<forall>j\<in>set (x # xs). f i \<le> f j) (x # xs)
               = find (\<lambda>i. \<forall>j\<in>set (x # xs). f i \<le> f j) xs"
        using nx by (simp only: find.simps if_False)
      have c: "hd (sort_key f (x # xs)) = ?h"
        using lt ne by (simp add: hd_insort_key)
      show ?thesis by (simp only: a b c)
    qed
  qed
qed

lemma sort_key_map_pair:
  "sort_key (\<lambda>p. g (snd p)) (map (\<lambda>it. (it, c it)) xs) = map (\<lambda>it. (it, c it)) (sort_key (\<lambda>it. g (c it)) xs)"
proof (induction xs)
  case Nil then show ?case by simp
next
  case (Cons x xs)
  have ins: "\<And>ys. insort_key (\<lambda>p. g (snd p)) (x, c x) (map (\<lambda>it. (it, c it)) ys)
            = map (\<lambda>it. (it, c it)) (insort_key (\<lambda>it. g (c it)) x ys)"
    subgoal for ys by (induction ys) auto
    done
  show ?case using Cons.IH by (simp add: ins)
qed

text \<open>
  C7. \<open>pickBestTrackCandidate\<close> returns the first item, in the order of the search results,
  whose score is the highest of all, provided that score is at least 0.8, and nothing
  otherwise; whatever it returns is one of the items and scores at least 0.8.
\<close>

theorem pickBestTrackCandidate_first_top:
  "pickBestTrackCandidate items ra =
     (case find (\<lambda>i. \<forall>j\<in>set items. getArtistConfidence (artists j) ra
                                      \<le> getArtistConfidence (artists i) ra) items of
        None \<Rightarrow> None
      | Some b \<Rightarrow> if getArtistConfidence (artists b) ra < 8 / 10 then None else Some b)
   \<and> (\<forall>b. pickBestTrackCandidate items ra = Some b
          \<longrightarrow> b \<in> set items \<and> 8 / 10 \<le> getArtistConfidence (artists b) ra)"
proof -
  let ?c = "\<lambda>it. getArtistConfidence (artists it) ra"
  let ?f = "find (\<lambda>i. \<forall>j\<in>set items. ?c j \<le> ?c i) items"
  have eq: "pickBestTrackCandidate items ra =
     (case ?f of None \<Rightarrow> None | Some b \<Rightarrow> if ?c b < 8 / 10 then None else Some b)"
  proof (cases "items = []")
    case True then show ?thesis by (simp add: pickBestTrackCandidate_def)
  next
    case False
    let ?s = "sort_key (\<lambda>it. - ?c it) items"
    have ne: "?s \<noteq> []" using False by (rule sort_key_ne)
    have f: "find (\<lambda>i. \<forall>j\<in>set items. - ?c i \<le> - ?c j) items = Some (hd ?s)"
      using False by (rule find_hd_sort_key)
    have srt: "sort_key (\<lambda>p. - snd p) (map (\<lambda>it. (it, ?c it)) items) = map (\<lambda>it. (it, ?c it)) ?s"
      by (rule sort_key_map_pair [where g = uminus])
    obtain h t where ht: "?s = h # t" using ne by (cases ?s) auto
    show ?thesis using False f srt ht by (simp add: pickBestTrackCandidate_def)
  qed
  have mem: "\<And>b. ?f = Some b \<Longrightarrow> b \<in> set items"
    by (auto simp: find_Some_iff)
  show ?thesis
  proof (intro conjI allI impI)
    show "pickBestTrackCandidate items ra =
       (case ?f of None \<Rightarrow> None | Some b \<Rightarrow> if ?c b < 8 / 10 then None else Some b)"
      by (rule eq)
  next
    fix b assume "pickBestTrackCandidate items ra = Some b"
    with eq have "?f = Some b \<and> \<not> ?c b < 8 / 10"
      by (auto split: option.splits if_splits)
    then show "b \<in> set items" using mem by blast
  next
    fix b assume "pickBestTrackCandidate items ra = Some b"
    with eq have "?f = Some b \<and> \<not> ?c b < 8 / 10"
      by (auto split: option.splits if_splits)
    then show "8 / 10 \<le> ?c b" by simp
  qed
qed

theorem pickBestTrackCandidate_first_top_witness:
  "pickBestTrackCandidate
     [weeknd_item ''u1'' ''The Weeknd Tribute Band'', weeknd_item ''u2'' ''The Weeknd'',
      weeknd_item ''u3'' ''THE WEEKND'', weeknd_item ''u4'' ''Abel'']
     ''the weeknd!!''
   = Some (weeknd_item ''u2'' ''The Weeknd'')
   \<and> weeknd_item ''u2'' ''The Weeknd''
       \<in> set [weeknd_item ''u1'' ''The Weeknd Tribute Band'', weeknd_item ''u2'' ''The Weeknd'',
              weeknd_item ''u3'' ''THE WEEKND'', weeknd_item ''u4'' ''Abel'']
   \<and> pickBestTrackCandidate [weeknd_item ''u4'' ''Abel''] ''the weeknd!!'' = None"
proof -
  let ?items = "[weeknd_item ''u1'' ''The Weeknd Tribute Band'', weeknd_item ''u2'' ''The Weeknd'',
                 weeknd_item ''u3'' ''THE WEEKND'', weeknd_item ''u4'' ''Abel'']"
  let ?c = "\<lambda>it. getArtistConfidence (artists it) ''the weeknd!!''"
  have f: "find (\<lambda>i. \<forall>j\<in>set ?items. ?c j \<le> ?c i) ?items = Some (weeknd_item ''u2'' ''The Weeknd'')"
    by code_simp
  have c: "\<not> ?c (weeknd_item ''u2'' ''The Weeknd'') < 8 / 10"
    by code_simp
  have f1: "find (\<lambda>i. \<forall>j\<in>set [weeknd_item ''u4'' ''Abel'']. ?c j \<le> ?c i) [weeknd_item ''u4'' ''Abel'']
            = Some (weeknd_item ''u4'' ''Abel'')"
    by code_simp
  have c1: "?c (weeknd_item ''u4'' ''Abel'') < 8 / 10"
    by code_simp
  from pickBestTrackCandidate_first_top [of ?items "''the weeknd!!''"] f c
  have a: "pickBestTrackCandidate ?items ''the weeknd!!'' = Some (weeknd_item ''u2'' ''The Weeknd'')"
    by simp
  from pickBestTrackCandidate_first_top [of "[weeknd_item ''u4'' ''Abel'']" "''the weeknd!!''"] f1 c1
  have b: "pickBestTrackCandidate [weeknd_item ''u4'' ''Abel''] ''the weeknd!!'' = None"
    by simp
  from pickBestTrackCandidate_first_top [of ?items "''the weeknd!!''"] a
  have m: "weeknd_item ''u2'' ''The Weeknd'' \<in> set ?items" by blast
  show ?thesis using a b m by blast
qed

section \<open>Artist confidence\<close>

lemma hd_rev_dropWhile_rev:
  "rev (dropWhile P (rev t)) \<noteq> [] \<Longrightarrow> hd (rev (dropWhile P (rev t))) = hd t"
proof -
  assume ne: "rev (dropWhile P (rev t)) \<noteq> []"
  have "rev (dropWhile P (rev t)) @ rev (takeWhile P (rev t))
          = rev (takeWhile P (rev t) @ dropWhile P (rev t))"
    by (simp only: rev_append)
  also have "\<dots> = t" by simp
  finally have "hd t = hd (rev (dropWhile P (rev t)) @ rev (takeWhile P (rev t)))" by simp
  with ne show ?thesis by simp
qed

lemma trim_hd: "trim s \<noteq> [] \<Longrightarrow> \<not> isSpace (hd (trim s))"
proof -
  assume ne: "trim s \<noteq> []"
  then have "hd (trim s) = hd (dropWhile isSpace s)"
    unfolding trim_def by (rule hd_rev_dropWhile_rev)
  moreover have "dropWhile isSpace s \<noteq> []"
    using ne by (cases "dropWhile isSpace s = []") (simp_all add: trim_def)
  ultimately show ?thesis by (simp add: hd_dropWhile)
qed

lemma tokens_ne: "s \<noteq> [] \<Longrightarrow> hd s \<noteq> CHR '' '' \<Longrightarrow> tokens s \<noteq> []"
  by (cases s) (auto simp: tokens_def split: list.splits)

lemma tokens_normalizeText: "normalizeText v \<noteq> [] \<Longrightarrow> tokens (normalizeText v) \<noteq> []"
proof -
  assume ne: "normalizeText v \<noteq> []"
  then have "\<not> isSpace (hd (normalizeText v))" unfolding normalizeText_def by (rule trim_hd)
  then have "hd (normalizeText v) \<noteq> CHR '' ''" by (auto simp: isSpace_def)
  with ne show ?thesis by (rule tokens_ne)
qed

lemma ratio_bounds: "0 \<le> (of_nat (length (filter P ts)) :: rat) / of_nat (length ts)
   \<and> (of_nat (length (filter P ts)) :: rat) / of_nat (length ts) \<le> 1"
proof (cases "ts = []")
  case True then show ?thesis by simp
next
  case False
  then have "0 < (of_nat (length ts) :: rat)" by simp
  moreover have "(of_nat (length (filter P ts)) :: rat) \<le> of_nat (length ts)"
    by (simp only: of_nat_le_iff length_filter_le)
  ultimately show ?thesis by (simp add: divide_le_eq_1)
qed

lemma candidateScore_bounds: "0 \<le> candidateScore r c \<and> candidateScore r c \<le> 1"
  using ratio_bounds [of "\<lambda>t. t \<in> set (tokens c)" "tokens r"]
  by (simp add: candidateScore_def)

lemma artistLoop_max:
  "0 \<le> best \<Longrightarrow> best \<le> 1 \<Longrightarrow>
   artistLoop r (tokens r) as best =
     max best (foldr max (map (\<lambda>n. candidateScore r (normalizeText n))
                  (filter (\<lambda>n. normalizeText n \<noteq> []) (map name as))) 0)"
proof (induction as arbitrary: best)
  case Nil
  then show ?case by simp
next
  case (Cons a as)
  let ?rest = "foldr max (map (\<lambda>n. candidateScore r (normalizeText n))
                  (filter (\<lambda>n. normalizeText n \<noteq> []) (map name as))) 0"
  have rest1: "?rest \<le> 1"
    by (induction as) (auto simp: candidateScore_bounds)
  have cs1: "candidateScore r (normalizeText (name a)) \<le> 1"
    by (simp add: candidateScore_bounds)
  show ?case
  proof (cases "normalizeText (name a) = []")
    case True
    then show ?thesis using Cons by simp
  next
    case ne: False
    show ?thesis
    proof (cases "normalizeText (name a) = r")
      case True
      have sc: "candidateScore r r = 1" by (simp add: candidateScore_def)
      have m1: "max 1 ?rest = 1" using rest1 by (rule max_absorb1)
      have m2: "max best 1 = 1" using Cons.prems(2) by (rule max_absorb2)
      show ?thesis using ne True by (simp add: sc m1 m2)
    next
      case nr: False
      show ?thesis
      proof (cases "strIncludes (normalizeText (name a)) r \<or> strIncludes r (normalizeText (name a))")
        case True
        have "0 \<le> max best (92 / 100)" "max best (92 / 100) \<le> (1::rat)" using Cons.prems by simp_all
        from Cons.IH [OF this] show ?thesis using ne nr True
          by (simp add: candidateScore_def max.assoc)
      next
        case False
        let ?sc = "candidateScore r (normalizeText (name a))"
        have "0 \<le> max best ?sc" "max best ?sc \<le> 1" using Cons.prems cs1 by simp_all
        from Cons.IH [OF this] show ?thesis using ne nr False
          by (simp add: candidateScore_def Let_def max.assoc)
      qed
    qed
  qed
qed

lemma foldr_max_bounds:
  "0 \<le> foldr max (map (\<lambda>n. candidateScore r (f n)) ns) (0::rat)
   \<and> foldr max (map (\<lambda>n. candidateScore r (f n)) ns) 0 \<le> 1"
  by (induction ns) (auto simp: candidateScore_bounds max_def)

lemma getArtistConfidence_eq:
  "getArtistConfidence as ra = scoreNamedArtists (map name as) ra"
proof (cases "normalizeText ra = []")
  case True
  then show ?thesis by (simp add: getArtistConfidence_def scoreNamedArtists_def)
next
  case False
  then have t: "tokens (normalizeText ra) \<noteq> []" by (rule tokens_normalizeText)
  have "(0::rat) \<le> 0" "(0::rat) \<le> 1" by simp_all
  from artistLoop_max [OF this, of "normalizeText ra" as] 
  show ?thesis using False t foldr_max_bounds [of "normalizeText ra" normalizeText]
    by (simp add: getArtistConfidence_def scoreNamedArtists_def Let_def max_def)
qed

lemma scoreNamed_bounds: "0 \<le> scoreNamedArtists ns ra \<and> scoreNamedArtists ns ra \<le> 1"
  using foldr_max_bounds [of "normalizeText ra" normalizeText]
  by (simp add: scoreNamedArtists_def Let_def)

lemma scoreNamed_cong:
  "normalizeText ra = normalizeText ra' \<Longrightarrow> map normalizeText ns = map normalizeText ns'
   \<Longrightarrow> scoreNamedArtists ns ra = scoreNamedArtists ns' ra'"
proof -
  assume r: "normalizeText ra = normalizeText ra'" and m: "map normalizeText ns = map normalizeText ns'"
  have e: "\<And>r ms. map (\<lambda>n. candidateScore r (normalizeText n)) (filter (\<lambda>n. normalizeText n \<noteq> []) ms)
     = map (candidateScore r) (filter (\<lambda>c. c \<noteq> []) (map normalizeText ms))"
    by (simp add: filter_map comp_def)
  show ?thesis unfolding scoreNamedArtists_def e r m ..
qed

lemma letters_lower:
  "list_all (\<lambda>p. toLowerChar (fst p) = snd p \<and> toLowerChar (snd p) = snd p)
     (zip ''ABCDEFGHIJKLMNOPQRSTUVWXYZ'' ''abcdefghijklmnopqrstuvwxyz'')"
  by code_simp

lemma sameLetter_lower:
  assumes "sameLetter c d"
  shows "toLowerChar c = toLowerChar d"
proof -
  have z: "\<And>x y. (x, y) \<in> set (zip ''ABCDEFGHIJKLMNOPQRSTUVWXYZ'' ''abcdefghijklmnopqrstuvwxyz'')
              \<Longrightarrow> toLowerChar x = toLowerChar y"
  proof -
    fix x y
    assume "(x, y) \<in> set (zip ''ABCDEFGHIJKLMNOPQRSTUVWXYZ'' ''abcdefghijklmnopqrstuvwxyz'')"
    with letters_lower have "toLowerChar (fst (x, y)) = snd (x, y)
                             \<and> toLowerChar (snd (x, y)) = snd (x, y)"
      unfolding list_all_iff by (rule bspec)
    then show "toLowerChar x = toLowerChar y" by simp
  qed
  from assms consider "c = d"
    | "(c, d) \<in> set (zip ''ABCDEFGHIJKLMNOPQRSTUVWXYZ'' ''abcdefghijklmnopqrstuvwxyz'')"
    | "(d, c) \<in> set (zip ''ABCDEFGHIJKLMNOPQRSTUVWXYZ'' ''abcdefghijklmnopqrstuvwxyz'')"
    unfolding sameLetter_def by blast
  then show ?thesis
  proof cases
    case 1 then show ?thesis by simp
  next
    case 2 then show ?thesis by (rule z)
  next
    case 3 then show ?thesis using z [of d c] by simp
  qed
qed

lemma separators_blank:
  "list_all (\<lambda>c. \<not> isLowerAlnum (toLowerChar c))
     (''!#$%&()*+,-./:;<=>?@[]^_{|}~'' @ [CHR 0x22, CHR 0x27, CHR 0x5C, CHR 0x60]
      @ [CHR 0x09, CHR 0x0A, CHR 0x0B, CHR 0x0C, CHR 0x0D, CHR '' ''])"
  by code_simp

lemma separator_blank:
  assumes "isSeparator c"
  shows "\<not> isLowerAlnum (toLowerChar c)"
proof -
  from assms have "c \<in> set (''!#$%&()*+,-./:;<=>?@[]^_{|}~'' @ [CHR 0x22, CHR 0x27, CHR 0x5C, CHR 0x60]
      @ [CHR 0x09, CHR 0x0A, CHR 0x0B, CHR 0x0C, CHR 0x0D, CHR '' ''])"
    unfolding isSeparator_def isPunctuation_def isSpace_def by (simp only: set_append Un_iff) blast
  with separators_blank show ?thesis unfolding list_all_iff by (rule bspec)
qed

lemma blank_space: "isSpace (CHR '' '')"
  by (simp add: isSpace_def)

lemma normalizeText_normalChar:
  "normalizeText s = trim (collapseSpaces (map normalChar s))"
  by (simp add: normalizeText_def replaceNonAlnum_def toLowerCase_def normalChar_def [abs_def]
        comp_def)

lemma normalChar_letter: "sameLetter c d \<Longrightarrow> normalChar c = normalChar d"
  by (simp add: normalChar_def sameLetter_lower)

lemma normalChar_separator:
  assumes "isSeparator c"
  shows "isSpace (normalChar c)"
  using separator_blank [OF assms] by (simp add: normalChar_def blank_space)

lemma collapse_Cons:
  "collapseSpaces (c # t) =
     (if isSpace c then (if t \<noteq> [] \<and> isSpace (hd t) then collapseSpaces t
                         else CHR '' '' # collapseSpaces t)
      else c # collapseSpaces t)"
  by (cases t) simp_all

lemma collapse_mid:
  "isSpace x \<Longrightarrow> isSpace y \<Longrightarrow> collapseSpaces (u @ x # v) = collapseSpaces (u @ y # v)"
proof (induction u)
  case Nil
  then show ?case by (simp add: collapse_Cons)
next
  case (Cons z u)
  have h: "hd (u @ x # v) = hd (u @ y # v) \<or> (isSpace (hd (u @ x # v)) \<and> isSpace (hd (u @ y # v)))"
    using Cons.prems by (cases u) simp_all
  then have "isSpace (hd (u @ x # v)) = isSpace (hd (u @ y # v))" by auto
  with Cons show ?case by (simp add: collapse_Cons [of z])
qed

lemma collapse_repeated:
  "isSpace x \<Longrightarrow> isSpace y \<Longrightarrow> collapseSpaces (u @ x # y # v) = collapseSpaces (u @ x # v)"
proof (induction u)
  case Nil
  have "collapseSpaces (x # y # v) = collapseSpaces (y # v)" using Nil by simp
  also have "\<dots> = collapseSpaces (x # v)"
    using collapse_mid [OF Nil(2) Nil(1), of "[]" v] by simp
  finally show ?case by simp
next
  case (Cons z u)
  have "hd (u @ x # y # v) = hd (u @ x # v)" by (cases u) simp_all
  with Cons show ?case by (simp add: collapse_Cons [of z])
qed

lemma collapse_snoc:
  "isSpace x \<Longrightarrow>
   collapseSpaces (t @ [x]) =
     (if t \<noteq> [] \<and> isSpace (last t) then collapseSpaces t else collapseSpaces t @ '' '')"
proof (induction t)
  case Nil
  then show ?case by simp
next
  case (Cons z t)
  show ?case
  proof (cases "t = []")
    case True
    then show ?thesis using Cons.prems by simp
  next
    case False
    then have h: "hd (t @ [x]) = hd t" by (cases t) simp_all
    show ?thesis
      using Cons False by (simp add: collapse_Cons [of z] h)
  qed
qed

lemma trim_leading: "isSpace x \<Longrightarrow> trim (x # s) = trim s"
  by (simp add: trim_def)

lemma trim_trailing: "isSpace x \<Longrightarrow> trim (s @ [x]) = trim s"
proof (cases "\<forall>c\<in>set s. isSpace c")
  case True
  assume "isSpace x"
  with True have "dropWhile isSpace (s @ [x]) = []" "dropWhile isSpace s = []" by simp_all
  then show ?thesis by (simp only: trim_def) 
next
  case False
  assume x: "isSpace x"
  from False have "dropWhile isSpace (s @ [x]) = dropWhile isSpace s @ [x]"
    by (auto simp: dropWhile_append1)
  with x show ?thesis by (simp add: trim_def)
qed

lemma nameVariant_normalizeText:
  "nameVariant s t \<Longrightarrow> normalizeText s = normalizeText t"
proof (induction rule: nameVariant.induct)
  case (same s)
  show ?case ..
next
  case (swap s t)
  then show ?case by simp
next
  case (chain s t u)
  then show ?case by simp
next
  case (letter c d a b)
  then show ?case
    by (simp add: normalizeText_normalChar normalChar_letter)
next
  case (separator c d a b)
  have "isSpace (normalChar c)" "isSpace (normalChar d)"
    using separator by (simp_all add: normalChar_separator)
  from collapse_mid [OF this] show ?case
    by (simp add: normalizeText_normalChar)
next
  case (repeated c d a b)
  have "isSpace (normalChar c)" "isSpace (normalChar d)"
    using repeated by (simp_all add: normalChar_separator)
  from collapse_repeated [OF this] show ?case
    by (simp add: normalizeText_normalChar)
next
  case (leading c s)
  have x: "isSpace (normalChar c)" using leading by (rule normalChar_separator)
  show ?case
    using x by (simp add: normalizeText_normalChar collapse_Cons [of "normalChar c"]
                  trim_leading blank_space)
next
  case (trailing c s)
  have x: "isSpace (normalChar c)" using trailing by (rule normalChar_separator)
  show ?case
    using x by (simp add: normalizeText_normalChar collapse_snoc trim_trailing blank_space)
qed

lemma nameVariants_normalizeText:
  "list_all2 (\<lambda>a b. nameVariant (name a) (name b)) as bs \<Longrightarrow>
   map normalizeText (map name as) = map normalizeText (map name bs)"
  by (induction rule: list_all2_induct) (simp_all add: nameVariant_normalizeText)



text \<open>
  The punctuation characters are those of the ASCII codes 33 to 47, 58 to 64, 91 to 96 and
  123 to 126.
\<close>

lemma isPunctuation_codes:
  "sort (map of_char (''!#$%&()*+,-./:;<=>?@[]^_{|}~'' @ [CHR 0x22, CHR 0x27, CHR 0x5C, CHR 0x60]))
   = [33..<48] @ [58..<65] @ [91..<97] @ [123..<(127::nat)]"
  by code_simp

text \<open>
  C8 fails in two ways. A candidate whose name normalizes to the empty string is skipped
  (\<open>if (!candidate) continue\<close>), where the formula of the claim gives it 0.92 (the empty
  string is contained in every string). And the score is not invariant under every
  punctuation variation: \<open>normalizeText\<close> replaces a punctuation character by a blank, so
  that \<open>AC/DC\<close> has the two tokens \<open>ac\<close> and \<open>dc\<close> and scores 0 against \<open>ACDC\<close>, which
  scores 1 against itself.
\<close>

theorem getArtistConfidence_empty_names_and_punctuation:
  "getArtistConfidence [\<lparr>name = ''!!!''\<rparr>] ''abc'' = 0
   \<and> scoreArtist (map name [\<lparr>name = ''!!!''\<rparr>]) ''abc'' = 92 / 100
   \<and> getArtistConfidence [\<lparr>name = ''!!!''\<rparr>] ''abc''
       \<noteq> scoreArtist (map name [\<lparr>name = ''!!!''\<rparr>]) ''abc''
   \<and> getArtistConfidence [\<lparr>name = ''AC/DC''\<rparr>] ''ACDC'' = 0
   \<and> getArtistConfidence [\<lparr>name = ''ACDC''\<rparr>] ''ACDC'' = 1
   \<and> getArtistConfidence [\<lparr>name = ''AC/DC''\<rparr>] ''ACDC''
       \<noteq> getArtistConfidence [\<lparr>name = ''ACDC''\<rparr>] ''ACDC''"
  by code_simp

text \<open>
  C8, amended. \<open>getArtistConfidence\<close> is the maximum, over the candidate artists whose
  normalized name is not empty, of 1 for an exact normalized match, 0.92 for containment in
  either direction and the token-overlap ratio otherwise; it lies in [0, 1] and is 0 when
  the requested artist normalizes to the empty string. It does not change when the
  requested name and the candidate names are replaced by variants (\<open>nameVariant\<close>): the
  case of letters may change, a separator (punctuation or whitespace) may be replaced by
  another one, repeated, or written at either end. On \<open>The Weeknd\<close> against
  \<open>the weeknd!!\<close> it is 1.
\<close>

theorem getArtistConfidence_max_named:
  "getArtistConfidence as ra = scoreNamedArtists (map name as) ra
   \<and> 0 \<le> getArtistConfidence as ra \<and> getArtistConfidence as ra \<le> 1
   \<and> (normalizeText ra = [] \<longrightarrow> getArtistConfidence as ra = 0)
   \<and> (\<forall>as' ra'. nameVariant ra ra'
          \<and> list_all2 (\<lambda>a b. nameVariant (name a) (name b)) as as'
          \<longrightarrow> getArtistConfidence as' ra' = getArtistConfidence as ra)
   \<and> getArtistConfidence [\<lparr>name = ''The Weeknd''\<rparr>] ''the weeknd!!'' = 1"
proof (intro conjI allI impI)
  show "getArtistConfidence as ra = scoreNamedArtists (map name as) ra"
    by (rule getArtistConfidence_eq)
  show "0 \<le> getArtistConfidence as ra"
    by (simp add: getArtistConfidence_eq scoreNamed_bounds)
  show "getArtistConfidence as ra \<le> 1"
    by (simp add: getArtistConfidence_eq scoreNamed_bounds)
  show "getArtistConfidence as ra = 0" if "normalizeText ra = []"
    using that by (simp add: getArtistConfidence_def)
  show "getArtistConfidence as' ra' = getArtistConfidence as ra"
    if "nameVariant ra ra' \<and> list_all2 (\<lambda>a b. nameVariant (name a) (name b)) as as'"
    for as' ra'
  proof -
    from that have "normalizeText ra = normalizeText ra'"
      by (simp add: nameVariant_normalizeText)
    moreover from that have "list_all2 (\<lambda>a b. nameVariant (name a) (name b)) as as'" ..
    then have "map normalizeText (map name as) = map normalizeText (map name as')"
      by (rule nameVariants_normalizeText)
    ultimately have "scoreNamedArtists (map name as') ra' = scoreNamedArtists (map name as) ra"
      by (intro scoreNamed_cong) simp_all
    then show ?thesis by (simp only: getArtistConfidence_eq)
  qed
  show "getArtistConfidence [\<lparr>name = ''The Weeknd''\<rparr>] ''the weeknd!!'' = 1"
    by code_simp
qed

theorem getArtistConfidence_max_named_witness:
  "nameVariant ''The Weeknd'' ''the weeknd!!''
   \<and> nameVariant ''The Weeknd'' ''the-weeknd''
   \<and> getArtistConfidence [\<lparr>name = ''the-weeknd''\<rparr>] ''the weeknd!!'' = 1
   \<and> getArtistConfidence [\<lparr>name = ''The Weeknd''\<rparr>] ''?!'' = 0
   \<and> getArtistConfidence [\<lparr>name = ''Daft Punk''\<rparr>, \<lparr>name = ''Punk Rock Factory''\<rparr>] ''daft funk''
       = 1 / 2"
proof -
  have tT: "sameLetter CHR ''T'' CHR ''t''" and wW: "sameLetter CHR ''W'' CHR ''w''"
    by (simp_all add: sameLetter_def)
  have sep: "isSeparator CHR ''!''" "isSeparator CHR '' ''" "isSeparator CHR ''-''"
    by (simp_all add: isSeparator_def isPunctuation_def isSpace_def)
  have v1: "nameVariant ''The Weeknd'' ''the Weeknd''"
    using nameVariant.letter [OF tT, of "[]" "''he Weeknd''"] by simp
  have v2: "nameVariant ''the Weeknd'' ''the weeknd''"
    using nameVariant.letter [OF wW, of "''the ''" "''eeknd''"] by simp
  have v3: "nameVariant ''the weeknd'' ''the weeknd!''"
    using nameVariant.trailing [OF sep(1), of "''the weeknd''"] by simp
  have v4: "nameVariant ''the weeknd!'' ''the weeknd!!''"
    using nameVariant.trailing [OF sep(1), of "''the weeknd!''"] by simp
  have v5: "nameVariant ''the weeknd'' ''the-weeknd''"
    using nameVariant.separator [OF sep(2) sep(3), of "''the''" "''weeknd''"] by simp
  have low: "nameVariant ''The Weeknd'' ''the weeknd''"
    using v1 v2 by (rule nameVariant.chain)
  have r: "nameVariant ''The Weeknd'' ''the weeknd!!''"
    using low v3 v4 by (blast intro: nameVariant.chain)
  have n: "nameVariant ''The Weeknd'' ''the-weeknd''"
    using low v5 by (rule nameVariant.chain)
  have l: "list_all2 (\<lambda>a b. nameVariant (name a) (name b))
             [\<lparr>name = ''The Weeknd''\<rparr>] [\<lparr>name = ''the-weeknd''\<rparr>]"
    using n by simp
  have v: "getArtistConfidence [\<lparr>name = ''The Weeknd''\<rparr>] ''The Weeknd'' = 1"
    by code_simp
  from getArtistConfidence_max_named [of "[\<lparr>name = ''The Weeknd''\<rparr>]" "''The Weeknd''"] r l
  have "getArtistConfidence [\<lparr>name = ''the-weeknd''\<rparr>] ''the weeknd!!''
        = getArtistConfidence [\<lparr>name = ''The Weeknd''\<rparr>] ''The Weeknd''"
    by blast
  with v have a: "getArtistConfidence [\<lparr>name = ''the-weeknd''\<rparr>] ''the weeknd!!'' = 1"
    by simp
  have n2: "normalizeText ''?!'' = []" by code_simp
  from getArtistConfidence_max_named [of "[\<lparr>name = ''The Weeknd''\<rparr>]" "''?!''"] n2
  have b: "getArtistConfidence [\<lparr>name = ''The Weeknd''\<rparr>] ''?!'' = 0" by blast
  have s: "scoreNamedArtists (map name [\<lparr>name = ''Daft Punk''\<rparr>, \<lparr>name = ''Punk Rock Factory''\<rparr>])
             ''daft funk'' = 1 / 2"
    by code_simp
  from getArtistConfidence_max_named
         [of "[\<lparr>name = ''Daft Punk''\<rparr>, \<lparr>name = ''Punk Rock Factory''\<rparr>]" "''daft funk''"] s
  have c: "getArtistConfidence [\<lparr>name = ''Daft Punk''\<rparr>, \<lparr>name = ''Punk Rock Factory''\<rparr>]
             ''daft funk'' = 1 / 2"
    by simp
  show ?thesis using r n a b c by (intro conjI)
qed

section \<open>Rounding to binary64\<close>

declare bitLength.simps [simp del]

lemma bitLength_Suc0: "bitLength (Suc 0) = 1"
  by (simp add: bitLength.simps [of "Suc 0"] bitLength.simps [of 0])

lemma bitLength_pos: "0 < n \<Longrightarrow> 0 < bitLength n"
  by (simp add: bitLength.simps [of n])

lemma bitLength_bounds: "0 < n \<Longrightarrow> 2 ^ (bitLength n - 1) \<le> n \<and> n < 2 ^ bitLength n"
proof (induction n rule: bitLength.induct)
  case (1 n)
  show ?case
  proof (cases "n div 2 = 0")
    case True
    with "1.prems" have "n = Suc 0" by (simp add: div_eq_0_iff) 
    then show ?thesis by (simp add: bitLength_Suc0)
  next
    case False
    then have pos: "0 < n div 2" by simp
    from "1.prems" have n0: "n \<noteq> 0" by simp
    from "1.IH" [OF n0 pos] have ih: "2 ^ (bitLength (n div 2) - 1) \<le> n div 2"
      "n div 2 < 2 ^ bitLength (n div 2)" by simp_all
    have bl: "bitLength n = Suc (bitLength (n div 2))" using n0 by (simp add: bitLength.simps [of n])
    have b0: "0 < bitLength (n div 2)" using pos by (rule bitLength_pos)
    then obtain j where j: "bitLength (n div 2) = Suc j" by (cases "bitLength (n div 2)") simp_all
    from ih(1) j have "2 ^ j \<le> n div 2" by simp
    then have "2 * 2 ^ j \<le> n" by linarith
    moreover from ih(2) have "n < 2 * 2 ^ bitLength (n div 2)" by linarith
    ultimately show ?thesis using bl j by simp
  qed
qed

lemma roundHalfEven_of_int: "roundHalfEven (of_int z) = z"
  by (simp add: roundHalfEven_def)

lemma floorLog2_bounds:
  assumes "0 < x"
  shows "2 powi (floorLog2 x) \<le> x \<and> x < 2 powi (floorLog2 x + 1)"
proof (cases "1 \<le> x")
  case True
  define n where "n = nat \<lfloor>x\<rfloor>"
  have fl1: "1 \<le> \<lfloor>x\<rfloor>" using True by (simp add: le_floor_iff)
  then have npos: "0 < n" and nfl: "int n = \<lfloor>x\<rfloor>" by (simp_all add: n_def)
  from bitLength_bounds [OF npos] have lo: "2 ^ (bitLength n - 1) \<le> n" and hi: "n < 2 ^ bitLength n"
    by simp_all
  have bpos: "0 < bitLength n" using npos by (rule bitLength_pos)
  have e: "floorLog2 x = int (bitLength n - 1)"
    using True bpos by (simp add: floorLog2_def n_def)
  have "(2::rat) ^ (bitLength n - 1) = of_nat (2 ^ (bitLength n - 1))" by simp
  also have "\<dots> \<le> of_nat n" using lo by (simp only: of_nat_le_iff)
  also have "(of_nat n :: rat) = of_int \<lfloor>x\<rfloor>" using nfl by (metis of_int_of_nat_eq)
  also have "\<dots> \<le> x" by (rule of_int_floor_le)
  finally have a: "2 powi (floorLog2 x) \<le> x" unfolding e by (simp only: power_int_of_nat)
  have "Suc n \<le> 2 ^ bitLength n" using hi by simp
  then have "(of_nat (Suc n) :: rat) \<le> of_nat (2 ^ bitLength n)" by (simp only: of_nat_le_iff)
  then have "(of_int (\<lfloor>x\<rfloor> + 1) :: rat) \<le> 2 ^ bitLength n" using nfl by simp
  moreover have "x < of_int (\<lfloor>x\<rfloor> + 1)" using floor_correct [of x] by simp
  ultimately have "x < 2 ^ bitLength n" by (rule less_le_trans [rotated])
  moreover have "floorLog2 x + 1 = int (bitLength n)" using e bpos by simp
  ultimately have b: "x < 2 powi (floorLog2 x + 1)" by (simp only: power_int_of_nat)
  show ?thesis using a b by (rule conjI)
next
  case False
  then have x1: "x < 1" by simp
  define t where "t = 1 / x"
  have t1: "1 < t" using assms x1 by (simp add: t_def)
  define m where "m = nat (\<lceil>t\<rceil> - 1)"
  have "1 < \<lceil>t\<rceil>" using t1 by (simp add: less_ceiling_iff)
  then have mpos: "0 < m" and mc: "int m = \<lceil>t\<rceil> - 1" by (simp_all add: m_def)
  define k where "k = bitLength m"
  have kpos: "0 < k" unfolding k_def using mpos by (rule bitLength_pos)
  from bitLength_bounds [OF mpos] have lo: "2 ^ (k - 1) \<le> m" and hi: "m < 2 ^ k"
    by (simp_all add: k_def)
  have e: "floorLog2 x = - int k"
    using False by (simp add: floorLog2_def k_def m_def t_def)
  have tpos: "0 < t" using t1 by simp
  have xt: "x = 1 / t" using assms by (simp add: t_def)
  \<comment> \<open>lower bound\<close>
  have "Suc m \<le> 2 ^ k" using hi by simp
  then have "(of_nat (Suc m) :: rat) \<le> of_nat (2 ^ k)" by (simp only: of_nat_le_iff)
  moreover have "\<lceil>t\<rceil> = int (Suc m)" using mc by simp
  then have "(of_int \<lceil>t\<rceil> :: rat) = of_nat (Suc m)" by (simp only: of_int_of_nat_eq)
  ultimately have "(of_int \<lceil>t\<rceil> :: rat) \<le> 2 ^ k" by simp
  with le_of_int_ceiling [of t] have tk: "t \<le> 2 ^ k" by (rule order_trans)
  have "1 / (2::rat) ^ k \<le> 1 / t" using tk tpos by (simp add: frac_le)
  moreover have "(2::rat) powi (floorLog2 x) = 1 / 2 ^ k"
    by (simp only: e power_int_minus_divide power_int_of_nat)
  ultimately have a: "2 powi (floorLog2 x) \<le> x" by (simp only: xt)
  \<comment> \<open>upper bound\<close>
  have "(2::rat) ^ (k - 1) = of_nat (2 ^ (k - 1))" by simp
  also have "\<dots> \<le> of_nat m" using lo by (simp only: of_nat_le_iff)
  also have "(of_nat m :: rat) = of_int \<lceil>t\<rceil> - 1" using mc by (metis of_int_of_nat_eq of_int_diff of_int_1)
  also have "\<dots> < t" using ceiling_correct [of t] by simp
  finally have kt: "(2::rat) ^ (k - 1) < t" .
  have "1 / t < 1 / (2::rat) ^ (k - 1)" using kt by (simp add: frac_less2)
  moreover have "floorLog2 x + 1 = - int (k - 1)" using e kpos by simp
  then have "(2::rat) powi (floorLog2 x + 1) = 1 / 2 ^ (k - 1)"
    by (simp only: power_int_minus_divide power_int_of_nat)
  ultimately have b: "x < 2 powi (floorLog2 x + 1)" by (simp only: xt)
  show ?thesis using a b by (rule conjI)
qed

lemma powi_less_imp: "(2::rat) powi a < 2 powi b \<Longrightarrow> a < b"
proof (rule ccontr)
  assume l: "(2::rat) powi a < 2 powi b" and "\<not> a < b"
  then have "b \<le> a" by simp
  then have "(2::rat) powi b \<le> 2 powi a" by (rule power_int_increasing) simp
  with l show False by simp
qed

lemma floorLog2_unique:
  assumes "0 < x" and "2 powi e \<le> x" and "x < 2 powi (e + 1)"
  shows "floorLog2 x = e"
proof -
  from floorLog2_bounds [OF assms(1)] have
    b: "2 powi (floorLog2 x) \<le> x" "x < 2 powi (floorLog2 x + 1)" by simp_all
  from assms(2) b(2) have "(2::rat) powi e < 2 powi (floorLog2 x + 1)" by (rule le_less_trans)
  then have 1: "e < floorLog2 x + 1" by (rule powi_less_imp)
  from b(1) assms(3) have "(2::rat) powi (floorLog2 x) < 2 powi (e + 1)" by (rule le_less_trans)
  then have 2: "floorLog2 x < e + 1" by (rule powi_less_imp)
  from 1 2 show ?thesis by simp
qed


lemma roundDouble_exact:
  assumes "0 < x" and "2 powi e \<le> x" and "x < 2 powi (e + 1)"
    and "- 1022 \<le> e" and "e \<le> 1023" and "x = of_int m * 2 powi (e - 52)"
  shows "roundDouble x = Fin x"
proof -
  have ax: "\<bar>x\<bar> = x" using assms(1) by simp
  have fl: "floorLog2 x = e" using assms(1-3) by (rule floorLog2_unique)
  have mx: "max e (- 1022) = e" using assms(4) by simp
  have up: "(0::rat) < 2 powi (e - 52)" by (simp add: zero_less_power_int)
  have q: "x / 2 powi (e - 52) = of_int m" using up by (simp add: assms(6))
  have y: "of_int (roundHalfEven (x / 2 powi (e - 52))) * 2 powi (e - 52) = x"
    by (simp only: q roundHalfEven_of_int assms(6) [symmetric])
  have "e + 1 \<le> 1024" using assms(5) by simp
  then have "(2::rat) powi (e + 1) \<le> 2 powi 1024" by (rule power_int_increasing) simp
  with assms(3) have "x < 2 powi 1024" by (rule less_le_trans)
  then have big: "\<not> 2 powi 1024 \<le> x" by simp
  have nz: "x \<noteq> 0" using assms(1) by simp
  show ?thesis
    unfolding roundDouble_def Let_def ax fl mx y
    using nz big assms(1) by (simp only: if_False if_True)
qed

lemma roundDouble_dyadic:
  assumes "0 < k" and "k < 2 ^ 53" and "j \<le> 1022"
  shows "roundDouble (of_nat k / 2 ^ j) = Fin (of_nat k / 2 ^ j)"
proof -
  define x :: rat where "x = of_nat k / 2 ^ j"
  define e where "e = floorLog2 x"
  have xpos: "0 < x" using assms(1) by (simp add: x_def)
  from floorLog2_bounds [OF xpos] have lo: "2 powi e \<le> x" and hi: "x < 2 powi (e + 1)"
    by (simp_all add: e_def)
  have pj: "(2::rat) powi (- int j) = 1 / 2 ^ j"
    by (simp only: power_int_minus_divide power_int_of_nat)
  have "(1::rat) \<le> of_nat k" using assms(1) by simp
  then have "1 / 2 ^ j \<le> x" by (simp add: x_def divide_right_mono)
  from this hi have "(2::rat) powi (- int j) < 2 powi (e + 1)" unfolding pj by (rule le_less_trans)
  then have "- int j < e + 1" by (rule powi_less_imp)
  then have e_lo: "- int j \<le> e" by simp
  then have e1: "- 1022 \<le> e" using assms(3) by simp
  have "(of_nat k :: rat) < of_nat (2 ^ 53)" using assms(2) by (simp only: of_nat_less_iff)
  then have "(of_nat k :: rat) < 2 ^ 53" by simp
  then have "x < 2 ^ 53 / 2 ^ j" by (simp add: x_def divide_strict_right_mono)
  also have "(2::rat) ^ 53 / 2 ^ j = 2 powi (53 - int j)"
    using power_int_diff [of "2::rat" 53 "int j"] by (simp add: power_int_of_nat)
  finally have "x < 2 powi (53 - int j)" .
  with lo have "(2::rat) powi e < 2 powi (53 - int j)" by (rule le_less_trans)
  then have "e < 53 - int j" by (rule powi_less_imp)
  then have e_hi: "e \<le> 52 - int j" by simp
  then have e2: "e \<le> 1023" by simp
  define s where "s = nat (52 - int j - e)"
  have s: "int s = 52 - int j - e" using e_hi by (simp add: s_def)
  have "x = of_nat k * 2 powi (- int j)" by (simp add: x_def pj)
  also have "(2::rat) powi (- int j) = 2 powi (int s) * 2 powi (e - 52)"
    using power_int_add [of "2::rat" "int s" "e - 52"] by (simp add: s)
  also have "of_nat k * ((2::rat) powi (int s) * 2 powi (e - 52))
             = of_int (int (k * 2 ^ s)) * 2 powi (e - 52)"
    by (simp add: power_int_of_nat)
  finally have rep: "x = of_int (int (k * 2 ^ s)) * 2 powi (e - 52)" .
  from roundDouble_exact [OF xpos lo hi e1 e2 rep] show ?thesis by (simp only: x_def)
qed

lemma roundDouble_numeral:
  assumes "numeral k < (2::nat) ^ 53"
  shows "roundDouble (numeral k) = Fin (numeral k)"
proof -
  have "0 < (numeral k :: nat)" by simp
  from roundDouble_dyadic [OF this assms, of 0]
  show ?thesis by (simp only: of_nat_numeral power_0 div_by_1)
qed

lemma roundDouble_numeral_half:
  assumes "numeral k < (2::nat) ^ 53"
  shows "roundDouble (numeral k / 2) = Fin (numeral k / 2)"
proof -
  have "0 < (numeral k :: nat)" by simp
  from roundDouble_dyadic [OF this assms, of 1]
  show ?thesis by (simp only: of_nat_numeral power_one_right)
qed

lemma roundDouble_not_NaN: "roundDouble x \<noteq> NaN"
  by (simp add: roundDouble_def Let_def)

lemma roundDouble_tie:
  "roundDouble (18014398509481983 / 1125899906842624) = Fin 16"
proof -
  define x :: rat where "x = 18014398509481983 / 1125899906842624"
  have xpos: "0 < x" by (simp add: x_def)
  have ax: "\<bar>x\<bar> = x" using xpos by simp
  have fl: "floorLog2 x = 3"
    by (rule floorLog2_unique) (simp_all add: x_def)
  have ulp: "(2::rat) powi (max 3 (- 1022) - 52) = 1 / 562949953421312" by simp
  have q: "x / (1 / 562949953421312) = 18014398509481983 / 2" by (simp add: x_def)
  have f: "\<lfloor>18014398509481983 / 2 :: rat\<rfloor> = 9007199254740991"
    by (rule floor_unique) simp_all
  have r: "roundHalfEven (18014398509481983 / 2) = 9007199254740992"
    by (simp add: roundHalfEven_def f Let_def)
  have y: "of_int (roundHalfEven (x / (1 / 562949953421312))) * (1 / 562949953421312) = (16::rat)"
    by (simp only: q r)
  have big: "\<not> (2::rat) powi 1024 \<le> 16"
  proof -
    have "(16::rat) = 2 powi 4" by simp
    also have "\<dots> < 2 powi 1024" by (rule power_int_strict_increasing) simp_all
    finally show ?thesis by simp
  qed
  have nz: "x \<noteq> 0" using xpos by simp
  have "roundDouble x = Fin 16"
    unfolding roundDouble_def Let_def ax fl ulp y
    using nz big xpos by (simp only: if_False if_True)
  then show ?thesis by (simp only: x_def)
qed

lemma roundDouble_of_nat:
  assumes "n < 2 ^ 53"
  shows "roundDouble (of_nat n) = Fin (of_nat n)"
proof (cases "n = 0")
  case True
  then show ?thesis by (simp add: roundDouble_def)
next
  case False
  then have "0 < n" by simp
  from roundDouble_dyadic [OF this assms, of 0]
  show ?thesis by (simp only: power_0 div_by_1)
qed

lemma generateCountFor_finite:
  "mathMin (Fin 50)
     (mathMax (jsTimes (jsMinus (Fin desired) (Fin (of_nat (length (matched p))))) (Fin 3)) (Fin 8))
   = Fin (generateCountFor desired p)
   \<and> 8 \<le> generateCountFor desired p \<and> generateCountFor desired p \<le> 50"
proof -
  define needed where "needed = jsMinus (Fin desired) (Fin (of_nat (length (matched p))))"
  have n: "needed \<noteq> NaN" by (simp add: needed_def roundDouble_not_NaN)
  have t: "jsTimes needed (Fin 3) \<noteq> NaN"
    using n by (cases needed) (simp_all add: roundDouble_not_NaN)
  have "\<exists>c. mathMin (Fin 50) (mathMax (jsTimes needed (Fin 3)) (Fin 8)) = Fin c \<and> 8 \<le> c \<and> c \<le> 50"
    using t by (cases "jsTimes needed (Fin 3)") simp_all
  then show ?thesis
    unfolding generateCountFor_def Let_def needed_def [symmetric] by auto
qed

lemma generateCountFor_integral:
  assumes "length (matched p) < k" and "k < 2 ^ 51"
  shows "generateCountFor (of_nat k) p
         = min 50 (max ((of_nat k - of_nat (length (matched p))) * 3) 8)"
proof -
  define l where "l = length (matched p)"
  have d: "(of_nat k :: rat) - of_nat l = of_nat (k - l)"
    using assms(1) by (simp add: l_def of_nat_diff)
  have "(2::nat) ^ 51 \<le> 2 ^ 53" by (rule power_increasing) simp_all
  with assms(2) have "k - l < 2 ^ 53" by simp
  then have r1: "roundDouble (of_nat (k - l)) = Fin (of_nat (k - l))" by (rule roundDouble_of_nat)
  have t: "(of_nat (k - l) :: rat) * 3 = of_nat ((k - l) * 3)" by simp
  have "(2::nat) ^ 53 = 2 ^ 51 * 4" by simp
  with assms(2) have "(k - l) * 3 < 2 ^ 53" by simp
  then have r2: "roundDouble (of_nat ((k - l) * 3)) = Fin (of_nat ((k - l) * 3))"
    by (rule roundDouble_of_nat)
  show ?thesis
    unfolding generateCountFor_def Let_def l_def [symmetric]
    by (simp only: jsMinus.simps d r1 jsTimes.simps t r2 mathMax.simps mathMin.simps
          finiteValue.simps)
qed

text \<open>
  The number \<open>5.333333333333333\<close> of a request is the binary64 value
  \<open>6004799503160661 / 2 ^ 50\<close>. Three times it is \<open>16 - 2 ^ -50\<close>, which lies halfway
  between two binary64 values and is rounded to 16: the first round of a run with this
  desired count asks for 16 tracks.
\<close>

lemma generateCountFor_rounds:
  "generateCountFor (6004799503160661 / 1125899906842624) emptyPool = 16"
proof -
  have s: "roundDouble (6004799503160661 / 1125899906842624)
           = Fin (6004799503160661 / 1125899906842624)"
    using roundDouble_dyadic [of 6004799503160661 50] by simp
  have m: "(6004799503160661 / 1125899906842624 :: rat) * 3
           = 18014398509481983 / 1125899906842624" by simp
  show ?thesis
    by (simp add: generateCountFor_def emptyPool_def s m roundDouble_tie)
qed

section \<open>Traces of the engine\<close>

declare expandLoop.simps [simp del]
declare dupFillLoop.simps [simp del]

lemma find_trace:
  "findSpotifyTrackUri sv c w = (r, w') \<Longrightarrow> trace w' = trace w @ [Resolve c r]"
  by (auto simp: findSpotifyTrackUri_def logEvent_def split: prod.splits)

lemma gen_trace:
  "generateTracklist sv d n x w = (r, w') \<Longrightarrow> trace w' = trace w @ [Generate n x]"
  by (auto simp: generateTracklist_def Let_def logEvent_def split: prod.splits sum.splits)

lemma match_trace:
  "matchCandidatesToSpotify sv cs p w = (r, w') \<Longrightarrow>
   \<exists>ev. trace w' = trace w @ ev \<and> (\<forall>e\<in>set ev. isResolve e)"
proof (induction cs arbitrary: p w)
  case Nil
  then show ?case by simp
next
  case (Cons c cs)
  show ?case
  proof (cases "makeTrackKey (title c) (artist c) \<in> attemptedTrackKeys p")
    case True
    with Cons.prems have "matchCandidatesToSpotify sv cs p w = (r, w')" by simp
    then show ?thesis by (rule Cons.IH)
  next
    case False
    obtain f w1 where f: "findSpotifyTrackUri sv c w = (f, w1)" by force
    have t1: "trace w1 = trace w @ [Resolve c f]" using f by (rule find_trace)
    show ?thesis
    proof (cases f)
      case (Inl e)
      with Cons.prems False f have "w' = w1" by simp
      with t1 show ?thesis by simp
    next
      case (Inr m)
      with Cons.prems False f have
        "matchCandidatesToSpotify sv cs
           (pushMatch c m (p\<lparr>attemptedTrackKeys := insert (makeTrackKey (title c) (artist c)) (attemptedTrackKeys p)\<rparr>)) w1 = (r, w')"
        by simp
      from Cons.IH [OF this] obtain ev where "trace w' = trace w1 @ ev" "\<forall>e\<in>set ev. isResolve e"
        by blast
      with t1 show ?thesis by (intro exI [of _ "Resolve c f # ev"]) simp
    qed
  qed
qed

lemma expand_trace_raw:
  "expandLoop sv d desired attempt p w = (r, w') \<Longrightarrow>
   \<exists>ev. trace w' = trace w @ ev
      \<and> (\<forall>e\<in>set ev. isResolve e \<or> isRound e \<or> isGenerate e)
      \<and> length (filter isRound ev) \<le> 8 - attempt
      \<and> (\<forall>n q c x out. Round n q c x out \<in> set ev \<longrightarrow>
            c = generateCountFor desired q \<and> x = excludedTracksFor q \<and> poolShort desired q
            \<and> attempt < n \<and> n \<le> 8)
      \<and> (\<forall>n q c x e. Round n q c x (Inl e) \<in> set ev \<longrightarrow>
            r = Inl e \<and> last ev = Round n q c x (Inl e))"
proof (induction sv d desired attempt p w arbitrary: r w' rule: expandLoop.induct)
  case (1 sv d desired attempt p w)
  let ?c = "generateCountFor desired p"
  let ?x = "excludedTracksFor p"
  let ?g = "Generate ?c ?x"
  show ?case
  proof (cases "poolShort desired p \<and> attempt < 8")
    case False
    with "1.prems" have "w' = w" by (simp add: expandLoop.simps)
    then show ?thesis by (intro exI [of _ "[]"]) simp
  next
    case True
    obtain g w1 where g: "generateTracklist sv d ?c ?x w = (g, w1)" by force
    have t1: "trace w1 = trace w @ [?g]" using g by (rule gen_trace)
    show ?thesis
    proof (cases g)
      case (Inl e)
      with "1.prems" True g have "r = Inl e" "w' = logEvent (Round (attempt + 1) p ?c ?x (Inl e)) w1"
        by (simp_all add: expandLoop.simps)
      then show ?thesis using t1 True
        by (intro exI [of _ "[?g, Round (attempt + 1) p ?c ?x (Inl e)]"]) (auto simp: logEvent_def)
    next
      case (Inr gen)
      let ?rd = "Round (attempt + 1) p ?c ?x (Inr gen)"
      obtain m w2 where m: "matchCandidatesToSpotify sv gen p (logEvent ?rd w1) = (m, w2)" by force
      from match_trace [OF m] obtain evm where
        evm: "trace w2 = trace (logEvent ?rd w1) @ evm" "\<forall>e\<in>set evm. isResolve e" by blast
      have nr: "\<And>n q c x out. Round n q c x out \<notin> set evm"
        using evm(2) by fastforce
      have fr: "filter isRound evm = []"
        using evm(2) by (induction evm) (auto elim: isResolve.elims)
      show ?thesis
      proof (cases m)
        case (Inl e)
        with "1.prems" True g Inr m have "r = Inl e" "w' = w2"
          by (simp_all add: expandLoop.simps)
        then show ?thesis using t1 True evm nr fr
          by (intro exI [of _ "?g # ?rd # evm"]) (auto simp: logEvent_def)
      next
        case (Inr p')
        with "1.prems" True g \<open>g = Inr gen\<close> m have
          rec: "expandLoop sv d desired (attempt + 1) p' w2 = (r, w')"
          by (simp add: expandLoop.simps)
        from "1.IH" [OF True g [symmetric] \<open>g = Inr gen\<close> m [symmetric] Inr rec]
        obtain ev where ev: "trace w' = trace w2 @ ev"
          "\<forall>e\<in>set ev. isResolve e \<or> isRound e \<or> isGenerate e"
          "length (filter isRound ev) \<le> 8 - (attempt + 1)"
          "\<forall>n q c x out. Round n q c x out \<in> set ev \<longrightarrow>
            c = generateCountFor desired q \<and> x = excludedTracksFor q \<and> poolShort desired q
            \<and> attempt + 1 < n \<and> n \<le> 8"
          "\<forall>n q c x e. Round n q c x (Inl e) \<in> set ev \<longrightarrow>
            r = Inl e \<and> last ev = Round n q c x (Inl e)"
          by blast
        have tr: "trace w' = trace w @ (?g # ?rd # evm @ ev)"
          using ev(1) evm(1) t1 by (simp add: logEvent_def)
        have a: "\<forall>e\<in>set (?g # ?rd # evm @ ev). isResolve e \<or> isRound e \<or> isGenerate e"
          using ev(2) evm(2) by auto
        have b: "length (filter isRound (?g # ?rd # evm @ ev)) \<le> 8 - attempt"
          using ev(3) fr True by auto
        have c: "\<forall>n q c x out. Round n q c x out \<in> set (?g # ?rd # evm @ ev) \<longrightarrow>
            c = generateCountFor desired q \<and> x = excludedTracksFor q \<and> poolShort desired q
            \<and> attempt < n \<and> n \<le> 8"
        proof (intro allI impI)
          fix n q c x out assume "Round n q c x out \<in> set (?g # ?rd # evm @ ev)"
          then consider "Round n q c x out = ?rd" | "Round n q c x out \<in> set ev"
            using nr by auto
          then show "c = generateCountFor desired q \<and> x = excludedTracksFor q
                     \<and> poolShort desired q \<and> attempt < n \<and> n \<le> 8"
          proof cases
            case 1
            then show ?thesis using True by simp
          next
            case 2
            with ev(4) have "c = generateCountFor desired q \<and> x = excludedTracksFor q
                     \<and> poolShort desired q \<and> attempt + 1 < n \<and> n \<le> 8" by blast
            then show ?thesis by simp
          qed
        qed
        have d: "\<forall>n q c x e. Round n q c x (Inl e) \<in> set (?g # ?rd # evm @ ev) \<longrightarrow>
            r = Inl e \<and> last (?g # ?rd # evm @ ev) = Round n q c x (Inl e)"
        proof (intro allI impI)
          fix n q c x e assume "Round n q c x (Inl e) \<in> set (?g # ?rd # evm @ ev)"
          then have i: "Round n q c x (Inl e) \<in> set ev" using nr by auto
          then have "ev \<noteq> []" by auto
          with ev(5) i show "r = Inl e \<and> last (?g # ?rd # evm @ ev) = Round n q c x (Inl e)"
            by simp
        qed
        show ?thesis using tr a b c d by blast
      qed
    qed
  qed
qed


lemma expand_trace:
  "expandLoop sv d desired attempt p w = (r, w') \<Longrightarrow>
   \<exists>ev. trace w' = trace w @ ev \<and> expansionTrace desired attempt r ev"
  unfolding expansionTrace_def by (rule expand_trace_raw)

lemma resolve_only_expansionTrace:
  "\<forall>e\<in>set ev. isResolve e \<Longrightarrow> expansionTrace desired attempt r ev"
  unfolding expansionTrace_def
proof (intro conjI allI impI ballI)
  assume a: "\<forall>e\<in>set ev. isResolve e"
  show "isResolve e \<or> isRound e \<or> isGenerate e" if "e \<in> set ev" for e using a that by blast
  have "filter isRound ev = []" using a by (induction ev) (auto elim: isResolve.elims)
  then show "length (filter isRound ev) \<le> 8 - attempt" by simp
  show "c = generateCountFor desired q" if "Round n q c x out \<in> set ev" for n q c x out
    using a that by fastforce
  show "x = excludedTracksFor q" if "Round n q c x out \<in> set ev" for n q c x out
    using a that by fastforce
  show "poolShort desired q" if "Round n q c x out \<in> set ev" for n q c x out
    using a that by fastforce
  show "attempt < n" if "Round n q c x out \<in> set ev" for n q c x out
    using a that by fastforce
  show "n \<le> 8" if "Round n q c x out \<in> set ev" for n q c x out
    using a that by fastforce
  show "r = Inl e" if "Round n q c x (Inl e) \<in> set ev" for n q c x e
    using a that by fastforce
  show "last ev = Round n q c x (Inl e)" if "Round n q c x (Inl e) \<in> set ev" for n q c x e
    using a that by fastforce
qed

lemma expansionTrace_prepend:
  assumes "\<forall>e\<in>set ev1. isResolve e" and "expansionTrace desired attempt r ev2"
  shows "expansionTrace desired attempt r (ev1 @ ev2)"
proof -
  have nr: "\<And>n q c x out. Round n q c x out \<notin> set ev1"
    using assms(1) by fastforce
  have fr: "filter isRound ev1 = []"
    using assms(1) by (induction ev1) (auto elim: isResolve.elims)
  have la: "\<And>n q c x e. Round n q c x (Inl e) \<in> set ev2 \<Longrightarrow> last (ev1 @ ev2) = last ev2"
  proof -
    fix n q c x e assume "Round n q c x (Inl e) \<in> set ev2"
    then have "ev2 \<noteq> []" by auto
    then show "last (ev1 @ ev2) = last ev2" by simp
  qed
  have a: "\<forall>n q c x e. Round n q c x (Inl e) \<in> set (ev1 @ ev2) \<longrightarrow>
            r = Inl e \<and> last (ev1 @ ev2) = Round n q c x (Inl e)"
  proof (intro allI impI)
    fix n q c x e assume "Round n q c x (Inl e) \<in> set (ev1 @ ev2)"
    then have i: "Round n q c x (Inl e) \<in> set ev2" using nr by auto
    with assms(2) have "r = Inl e \<and> last ev2 = Round n q c x (Inl e)"
      unfolding expansionTrace_def by blast
    with la [OF i] show "r = Inl e \<and> last (ev1 @ ev2) = Round n q c x (Inl e)" by simp
  qed
  have b: "\<forall>e\<in>set (ev1 @ ev2). isResolve e \<or> isRound e \<or> isGenerate e"
    using assms unfolding expansionTrace_def by auto
  have c: "length (filter isRound (ev1 @ ev2)) \<le> 8 - attempt"
    using assms(2) fr unfolding expansionTrace_def by simp
  have d: "\<forall>n q c x out. Round n q c x out \<in> set (ev1 @ ev2) \<longrightarrow>
            c = generateCountFor desired q \<and> x = excludedTracksFor q
            \<and> poolShort desired q \<and> attempt < n \<and> n \<le> 8"
  proof (intro allI impI)
    fix n q c x out assume "Round n q c x out \<in> set (ev1 @ ev2)"
    then have "Round n q c x out \<in> set ev2" using nr by auto
    with assms(2) show "c = generateCountFor desired q \<and> x = excludedTracksFor q
            \<and> poolShort desired q \<and> attempt < n \<and> n \<le> 8"
      unfolding expansionTrace_def by blast
  qed
  show ?thesis unfolding expansionTrace_def using a b c d by blast
qed

lemma expansionTrace_Inl:
  assumes "expansionTrace desired attempt (Inl e) ev"
  shows "expansionTrace desired attempt (Inl e) ev"
  using assms unfolding expansionTrace_def by auto

lemma expansionTrace_Inr:
  assumes "expansionTrace desired attempt (Inr p) ev"
  shows "expansionTrace desired attempt r ev"
  using assms unfolding expansionTrace_def by auto

lemma expansionTrace_append:
  assumes "expansionTrace desired attempt (Inr p) ev2" and "\<forall>e\<in>set ev3. isResolve e"
  shows "expansionTrace desired attempt r (ev2 @ ev3)"
proof -
  have nr: "\<And>n q c x out. Round n q c x out \<notin> set ev3"
    using assms(2) by fastforce
  have fr: "filter isRound ev3 = []"
    using assms(2) by (induction ev3) (auto elim: isResolve.elims)
  show ?thesis
    using assms nr fr unfolding expansionTrace_def by auto
qed

lemma fill_trace:
  assumes "fillPool sv d desired seeds w = (r, w')"
  shows "\<exists>ev. trace w' = trace w @ ev \<and> expansionTrace desired 0 r ev"
proof -
  obtain m1 w1 where m1: "matchCandidatesToSpotify sv seeds emptyPool w = (m1, w1)" by force
  from match_trace [OF m1] obtain ev1 where
    ev1: "trace w1 = trace w @ ev1" "\<forall>e\<in>set ev1. isResolve e" by blast
  show ?thesis
  proof (cases m1)
    case (Inl e)
    with assms m1 have "r = Inl e" "w' = w1" by (simp_all add: fillPool_def)
    with ev1 show ?thesis using resolve_only_expansionTrace [OF ev1(2)] by blast
  next
    case (Inr p1)
    obtain x w2 where x: "expandLoop sv d desired 0 p1 w1 = (x, w2)" by force
    from expand_trace [OF x] obtain ev2 where
      ev2: "trace w2 = trace w1 @ ev2" "expansionTrace desired 0 x ev2" by blast
    show ?thesis
    proof (cases x)
      case (Inl e)
      with assms m1 \<open>m1 = Inr p1\<close> x have "r = Inl e" "w' = w2" by (simp_all add: fillPool_def)
      moreover have "expansionTrace desired 0 x (ev1 @ ev2)"
        using ev1(2) ev2(2) by (rule expansionTrace_prepend)
      ultimately show ?thesis using ev1(1) ev2(1) Inl by (intro exI [of _ "ev1 @ ev2"]) simp
    next
      case (Inr p2)
      show ?thesis
      proof (cases "poolShort desired p2")
        case False
        with assms m1 \<open>m1 = Inr p1\<close> x Inr have "r = Inr p2" "w' = w2"
          by (simp_all add: fillPool_def)
        moreover have "expansionTrace desired 0 x (ev1 @ ev2)"
          using ev1(2) ev2(2) by (rule expansionTrace_prepend)
        ultimately show ?thesis using ev1(1) ev2(1) Inr by (intro exI [of _ "ev1 @ ev2"]) simp
      next
        case True
        with assms m1 \<open>m1 = Inr p1\<close> x Inr have
          fb: "matchCandidatesToSpotify sv EMERGENCY_FALLBACK_TRACKS p2 w2 = (r, w')"
          by (simp add: fillPool_def)
        from match_trace [OF fb] obtain ev3 where
          ev3: "trace w' = trace w2 @ ev3" "\<forall>e\<in>set ev3. isResolve e" by blast
        have "expansionTrace desired 0 r (ev2 @ ev3)"
          using ev2(2) ev3(2) unfolding Inr by (rule expansionTrace_append)
        with ev1(2) have "expansionTrace desired 0 r (ev1 @ ev2 @ ev3)"
          by (rule expansionTrace_prepend)
        then show ?thesis using ev1(1) ev2(1) ev3(1) by (intro exI [of _ "ev1 @ ev2 @ ev3"]) simp
      qed
    qed
  qed
qed

lemma build_trace:
  assumes "buildMatchedTrackPool sv d desired seeds w = (r, w')"
  shows "\<exists>ev. trace w' = trace w @ BuildPool desired # ev \<and> expansionTrace desired 0 r ev"
proof -
  obtain f w1 where f: "fillPool sv d desired seeds (logEvent (BuildPool desired) w) = (f, w1)"
    by force
  from fill_trace [OF f] obtain ev where
    ev: "trace w1 = trace (logEvent (BuildPool desired) w) @ ev" "expansionTrace desired 0 f ev"
    by blast
  have w': "w' = w1" using assms f by (auto simp: buildMatchedTrackPool_def split: sum.splits)
  have "expansionTrace desired 0 r ev"
  proof (cases f)
    case (Inl e)
    with assms f have "r = Inl e" by (simp add: buildMatchedTrackPool_def)
    with ev(2) Inl show ?thesis by (simp add: expansionTrace_Inl)
  next
    case (Inr p)
    with ev(2) show ?thesis by (simp add: expansionTrace_Inr)
  qed
  with ev(1) w' show ?thesis by (simp add: logEvent_def)
qed

section \<open>Duplicate fill and the pool invariant\<close>

lemma short_iff: "(of_nat n < (d::rat)) = (n < nat \<lceil>d\<rceil>)"
proof -
  have "(of_nat n < d) = (of_int (int n) < d)" by simp
  also have "\<dots> = (int n < \<lceil>d\<rceil>)" by (simp only: less_ceiling_iff)
  also have "\<dots> = (n < nat \<lceil>d\<rceil>)" by (simp only: zless_nat_eq_int_zless)
  finally show ?thesis .
qed

lemma dupFillLoop_eq:
  "base \<noteq> [] \<Longrightarrow>
   dupFillLoop base d m idx cnt =
     Inr (m @ map (\<lambda>i. cloneEntry (base ! (i mod length base)))
                 [idx ..< idx + (nat \<lceil>d\<rceil> - length m)],
          cnt + (nat \<lceil>d\<rceil> - length m))"
proof (induction base d m idx cnt rule: dupFillLoop.induct)
  case (1 base d m idx cnt)
  show ?case
  proof (cases "of_nat (length m) < d")
    case False
    then have "nat \<lceil>d\<rceil> - length m = 0" by (simp add: short_iff)
    with False show ?thesis by (simp add: dupFillLoop.simps)
  next
    case True
    then have lt: "length m < nat \<lceil>d\<rceil>" by (simp add: short_iff)
    then have k: "nat \<lceil>d\<rceil> - length m = Suc (nat \<lceil>d\<rceil> - Suc (length m))" by simp
    have up: "\<And>K. [idx ..< Suc (idx + K)] = idx # [Suc idx ..< Suc (idx + K)]"
      by (simp add: upt_conv_Cons)
    from "1.IH" [OF True "1.prems" "1.prems"] True "1.prems"
    show ?thesis
      by (subst dupFillLoop.simps) (simp add: k up del: upt_Suc)
  qed
qed

lemma duplicateFill_shape:
  "\<exists>cl. duplicateFill d b = Inr (b @ cl, length cl) \<and> (\<forall>e\<in>set cl. duplicated e)
       \<and> (b \<noteq> [] \<longrightarrow> \<not> of_nat (length (b @ cl)) < d)"
proof (cases "of_nat (length b) < d \<and> length b > 0")
  case False
  then show ?thesis by (intro exI [of _ "[]"]) (auto simp: duplicateFill_def)
next
  case True
  then have ne: "b \<noteq> []" by auto
  let ?cl = "map (\<lambda>i. cloneEntry (b ! (i mod length b))) [0 ..< 0 + (nat \<lceil>d\<rceil> - length b)]"
  have "duplicateFill d b = Inr (b @ ?cl, length ?cl)"
    using True dupFillLoop_eq [OF ne, of d b 0 0] by (simp add: duplicateFill_def)
  moreover have "\<forall>e\<in>set ?cl. duplicated e" by (auto simp: cloneEntry_def)
  moreover have "\<not> of_nat (length (b @ ?cl)) < d"
  proof -
    have len: "length (b @ ?cl) = nat \<lceil>d\<rceil>" using True by (simp add: short_iff)
    show ?thesis by (simp only: len short_iff less_irrefl not_False_eq_True)
  qed
  ultimately show ?thesis by blast
qed

lemma truncInt_of_nat: "truncInt (of_nat n) = int n"
  by (simp add: truncInt_def)

lemma slice0_of_nat: "slice0 xs (of_nat n) = take n xs"
  by (simp add: slice0_def truncInt_of_nat)

lemma poolInv_empty: "poolInv emptyPool"
  by (simp add: poolInv_def emptyPool_def)

lemma poolInv_keys: "poolInv (p\<lparr>attemptedTrackKeys := K\<rparr>) = poolInv p"
  by (simp add: poolInv_def)

lemma poolInv_pushMatch: "poolInv p \<Longrightarrow> poolInv (pushMatch c m p)"
  by (auto simp: poolInv_def pushMatch_def split: option.splits)

lemma match_inv:
  "matchCandidatesToSpotify sv cs p w = (Inr p', w') \<Longrightarrow> poolInv p \<Longrightarrow> poolInv p'"
proof (induction cs arbitrary: p w)
  case Nil
  then show ?case by simp
next
  case (Cons c cs)
  show ?case
  proof (cases "makeTrackKey (title c) (artist c) \<in> attemptedTrackKeys p")
    case True
    with Cons.prems(1) have "matchCandidatesToSpotify sv cs p w = (Inr p', w')" by simp
    then show ?thesis using Cons.prems(2) by (rule Cons.IH)
  next
    case False
    obtain f w1 where f: "findSpotifyTrackUri sv c w = (f, w1)" by force
    show ?thesis
    proof (cases f)
      case (Inl e)
      with Cons.prems(1) False f show ?thesis by simp
    next
      case (Inr m)
      let ?p1 = "pushMatch c m (p\<lparr>attemptedTrackKeys := insert (makeTrackKey (title c) (artist c)) (attemptedTrackKeys p)\<rparr>)"
      from Inr Cons.prems(1) False f have "matchCandidatesToSpotify sv cs ?p1 w1 = (Inr p', w')"
        by simp
      moreover have "poolInv ?p1" using Cons.prems(2) by (simp add: poolInv_pushMatch poolInv_keys)
      ultimately show ?thesis by (rule Cons.IH)
    qed
  qed
qed

lemma expand_inv:
  "expandLoop sv d desired attempt p w = (Inr p', w') \<Longrightarrow> poolInv p \<Longrightarrow> poolInv p'"
proof (induction sv d desired attempt p w rule: expandLoop.induct)
  case (1 sv d desired attempt p w)
  let ?c = "generateCountFor desired p"
  let ?x = "excludedTracksFor p"
  show ?case
  proof (cases "poolShort desired p \<and> attempt < 8")
    case False
    with "1.prems" show ?thesis by (simp add: expandLoop.simps)
  next
    case True
    obtain g w1 where g: "generateTracklist sv d ?c ?x w = (g, w1)" by force
    show ?thesis
    proof (cases g)
      case (Inl e)
      with "1.prems"(1) True g show ?thesis by (simp add: expandLoop.simps)
    next
      case (Inr gen)
      let ?rd = "Round (attempt + 1) p ?c ?x (Inr gen)"
      obtain m w2 where m: "matchCandidatesToSpotify sv gen p (logEvent ?rd w1) = (m, w2)" by force
      show ?thesis
      proof (cases m)
        case (Inl e)
        with "1.prems"(1) True g \<open>g = Inr gen\<close> m show ?thesis by (simp add: expandLoop.simps)
      next
        case (Inr p1)
        with "1.prems"(1) True g \<open>g = Inr gen\<close> m have
          rec: "expandLoop sv d desired (attempt + 1) p1 w2 = (Inr p', w')"
          by (simp add: expandLoop.simps)
        have "poolInv p1" using m "1.prems"(2) unfolding Inr by (rule match_inv)
        with "1.IH" [OF True g [symmetric] \<open>g = Inr gen\<close> m [symmetric] Inr rec]
        show ?thesis by simp
      qed
    qed
  qed
qed

lemma fill_inv:
  assumes "fillPool sv d desired seeds w = (Inr p, w')"
  shows "poolInv p"
proof -
  obtain m1 w1 where m1: "matchCandidatesToSpotify sv seeds emptyPool w = (m1, w1)" by force
  show ?thesis
  proof (cases m1)
    case (Inl e)
    with assms m1 show ?thesis by (simp add: fillPool_def)
  next
    case (Inr p1)
    have i1: "poolInv p1" using m1 poolInv_empty unfolding Inr by (rule match_inv)
    obtain x w2 where x: "expandLoop sv d desired 0 p1 w1 = (x, w2)" by force
    show ?thesis
    proof (cases x)
      case (Inl e)
      with assms m1 \<open>m1 = Inr p1\<close> x show ?thesis by (simp add: fillPool_def)
    next
      case (Inr p2)
      have i2: "poolInv p2" using x i1 unfolding Inr by (rule expand_inv)
      show ?thesis
      proof (cases "poolShort desired p2")
        case False
        with assms m1 \<open>m1 = Inr p1\<close> x Inr have "p = p2" by (simp add: fillPool_def)
        with i2 show ?thesis by simp
      next
        case True
        with assms m1 \<open>m1 = Inr p1\<close> x Inr have
          "matchCandidatesToSpotify sv EMERGENCY_FALLBACK_TRACKS p2 w2 = (Inr p, w')"
          by (simp add: fillPool_def)
        then show ?thesis using i2 by (rule match_inv)
      qed
    qed
  qed
qed

section \<open>Errors of the stages\<close>

lemma parse_err: "parsePotentialJson sv t = Inl e \<Longrightarrow> \<not> isInsufficient e"
  by (auto simp: parsePotentialJson_def split: option.splits)

lemma tracks_err: "tracksOfParsed sv parsed n = Inl e \<Longrightarrow> \<not> isInsufficient e"
  by (auto simp: tracksOfParsed_def split: if_splits jsvalue.splits)

lemma gen_err: "generateTracklist sv d n x w = (Inl e, w') \<Longrightarrow> \<not> isInsufficient e"
  by (auto simp: generateTracklist_def Let_def split: prod.splits sum.splits
           dest: parse_err tracks_err)

lemma query_err: "queryLoop sv a qs x = (Inl e, x') \<Longrightarrow> \<not> isInsufficient e"
  by (induction qs arbitrary: x) (auto split: prod.splits sum.splits option.splits if_splits)

lemma find_err:
  assumes "findSpotifyTrackUri sv c w = (Inl e, w')"
  shows "\<not> isInsufficient e"
proof -
  obtain r x where
    q: "queryLoop sv (artist c)
          [''track:'' @ title c @ '' artist:'' @ artist c, title c @ '' '' @ artist c] (ext w) = (r, x)"
    by force
  with assms have "r = Inl e"
    by (simp add: findSpotifyTrackUri_def Let_def del: queryLoop.simps)
  with q have "queryLoop sv (artist c)
          [''track:'' @ title c @ '' artist:'' @ artist c, title c @ '' '' @ artist c] (ext w)
        = (Inl e, x)"
    by (simp only:)
  then show ?thesis by (rule query_err)
qed

lemma match_err:
  "matchCandidatesToSpotify sv cs p w = (Inl e, w') \<Longrightarrow> \<not> isInsufficient e"
proof (induction cs arbitrary: p w)
  case Nil
  then show ?case by simp
next
  case (Cons c cs)
  show ?case
  proof (cases "makeTrackKey (title c) (artist c) \<in> attemptedTrackKeys p")
    case True
    with Cons.prems have "matchCandidatesToSpotify sv cs p w = (Inl e, w')" by simp
    then show ?thesis by (rule Cons.IH)
  next
    case False
    obtain f w1 where f: "findSpotifyTrackUri sv c w = (f, w1)" by force
    show ?thesis
    proof (cases f)
      case (Inl e1)
      with Cons.prems False f have "e = e1" by simp
      with f Inl show ?thesis using find_err by blast
    next
      case (Inr m)
      with Cons.prems False f have
        "matchCandidatesToSpotify sv cs
           (pushMatch c m (p\<lparr>attemptedTrackKeys := insert (makeTrackKey (title c) (artist c)) (attemptedTrackKeys p)\<rparr>)) w1 = (Inl e, w')"
        by simp
      then show ?thesis by (rule Cons.IH)
    qed
  qed
qed

lemma expand_err:
  "expandLoop sv d desired attempt p w = (Inl e, w') \<Longrightarrow> \<not> isInsufficient e"
proof (induction sv d desired attempt p w rule: expandLoop.induct)
  case (1 sv d desired attempt p w)
  let ?c = "generateCountFor desired p"
  let ?x = "excludedTracksFor p"
  show ?case
  proof (cases "poolShort desired p \<and> attempt < 8")
    case False
    with "1.prems" show ?thesis by (simp add: expandLoop.simps)
  next
    case True
    obtain g w1 where g: "generateTracklist sv d ?c ?x w = (g, w1)" by force
    show ?thesis
    proof (cases g)
      case (Inl e1)
      with "1.prems" True g have "e = e1" by (simp add: expandLoop.simps)
      with g Inl show ?thesis using gen_err by blast
    next
      case (Inr gen)
      let ?rd = "Round (attempt + 1) p ?c ?x (Inr gen)"
      obtain m w2 where m: "matchCandidatesToSpotify sv gen p (logEvent ?rd w1) = (m, w2)" by force
      show ?thesis
      proof (cases m)
        case (Inl e1)
        with "1.prems" True g \<open>g = Inr gen\<close> m have "e = e1" by (simp add: expandLoop.simps)
        with m Inl show ?thesis using match_err by blast
      next
        case (Inr p1)
        with "1.prems" True g \<open>g = Inr gen\<close> m have
          rec: "expandLoop sv d desired (attempt + 1) p1 w2 = (Inl e, w')"
          by (simp add: expandLoop.simps)
        from "1.IH" [OF True g [symmetric] \<open>g = Inr gen\<close> m [symmetric] Inr rec]
        show ?thesis .
      qed
    qed
  qed
qed

lemma fill_err:
  assumes "fillPool sv d desired seeds w = (Inl e, w')"
  shows "\<not> isInsufficient e"
proof -
  obtain m1 w1 where m1: "matchCandidatesToSpotify sv seeds emptyPool w = (m1, w1)" by force
  show ?thesis
  proof (cases m1)
    case (Inl e1)
    with assms m1 have "e = e1" by (simp add: fillPool_def)
    with m1 Inl show ?thesis using match_err by blast
  next
    case (Inr p1)
    obtain x w2 where x: "expandLoop sv d desired 0 p1 w1 = (x, w2)" by force
    show ?thesis
    proof (cases x)
      case (Inl e1)
      with assms m1 \<open>m1 = Inr p1\<close> x have "e = e1" by (simp add: fillPool_def)
      with x Inl show ?thesis using expand_err by blast
    next
      case (Inr p2)
      show ?thesis
      proof (cases "poolShort desired p2")
        case False
        with assms m1 \<open>m1 = Inr p1\<close> x Inr show ?thesis by (simp add: fillPool_def)
      next
        case True
        with assms m1 \<open>m1 = Inr p1\<close> x Inr have
          "matchCandidatesToSpotify sv EMERGENCY_FALLBACK_TRACKS p2 w2 = (Inl e, w')"
          by (simp add: fillPool_def)
        then show ?thesis by (rule match_err)
      qed
    qed
  qed
qed

lemma finishPool_cases:
  "\<exists>cl. duplicateFill desired (matched p) = Inr (matched p @ cl, length cl)
     \<and> (\<forall>e\<in>set cl. duplicated e)
     \<and> (matched p \<noteq> [] \<longrightarrow> \<not> of_nat (length (matched p @ cl)) < desired)
     \<and> finishPool desired p =
         (if of_nat (length (matched p @ cl)) < desired
          then Inl (InsufficientMatchesError (length (matched p @ cl)) desired)
          else Inr \<lparr>matched = slice0 (matched p @ cl) desired, unmatched = unmatched p,
                    duplicateFillCount = length cl\<rparr>)"
proof -
  from duplicateFill_shape [of desired "matched p"] obtain cl where
    cl: "duplicateFill desired (matched p) = Inr (matched p @ cl, length cl)"
        "\<forall>e\<in>set cl. duplicated e"
        "matched p \<noteq> [] \<longrightarrow> \<not> of_nat (length (matched p @ cl)) < desired"
    by blast
  then show ?thesis by (intro exI [of _ cl]) (simp add: finishPool_def)
qed

lemma duplicateFill_empty: "duplicateFill desired [] = Inr ([], 0)"
  by (simp add: duplicateFill_def)


lemma expand_generation_failure:
  assumes "poolShort desired p" "attempt < 8"
    and "generateTracklist sv d (generateCountFor desired p) (excludedTracksFor p) w = (Inl e, w1)"
  shows "expandLoop sv d desired attempt p w
         = (Inl e, logEvent (Round (attempt + 1) p (generateCountFor desired p)
                               (excludedTracksFor p) (Inl e)) w1)"
  using assms by (simp add: expandLoop.simps)

section \<open>Keys and resolutions of a stage\<close>

lemma resolvedKeys_append: "resolvedKeys (a @ b) = resolvedKeys a @ resolvedKeys b"
  by (simp add: resolvedKeys_def)

lemma resolvedKeys_Round: "resolvedKeys (Round n q c x out # ev) = resolvedKeys ev"
  by (simp add: resolvedKeys_def)

lemma resolvedKeys_BuildPool: "resolvedKeys (BuildPool k # ev) = resolvedKeys ev"
  by (simp add: resolvedKeys_def)

lemma resolvedKeys_Generate: "resolvedKeys (Generate n x # ev) = resolvedKeys ev"
  by (simp add: resolvedKeys_def)

lemma resolvedKeys_Nil: "resolvedKeys [] = []"
  by (simp add: resolvedKeys_def)

lemma resolvedIn_mono: "resolvedIn U ev \<Longrightarrow> U \<subseteq> V \<Longrightarrow> resolvedIn V ev"
  unfolding resolvedIn_def by blast

lemma resolvedIn_append: "resolvedIn U (a @ b) = (resolvedIn U a \<and> resolvedIn U b)"
  unfolding resolvedIn_def by auto

lemma resolvedIn_Round: "resolvedIn U (Round n q c x out # ev) = resolvedIn U ev"
  unfolding resolvedIn_def by auto

lemma stage_nil: "stageOK p [] (Inr p)"
  by (simp add: stageOK_def resolvedKeys_Nil resolvedIn_def)

lemma stage_round: "stageOK p ev r \<Longrightarrow> stageOK p (Round n q c x out # ev) r"
  by (simp add: stageOK_def resolvedKeys_Round resolvedIn_Round)

lemma resolvedIn_Generate: "resolvedIn U (Generate n x # ev) = resolvedIn U ev"
  unfolding resolvedIn_def by auto

lemma stage_generate: "stageOK p ev r \<Longrightarrow> stageOK p (Generate n x # ev) r"
  by (simp add: stageOK_def resolvedKeys_Generate resolvedIn_Generate)

lemma stage_comp:
  assumes "stageOK p ev1 (Inr p1)" and "stageOK p1 ev2 r"
  shows "stageOK p (ev1 @ ev2) r"
proof -
  from assms(1) have a: "distinct (resolvedKeys ev1)"
    "set (resolvedKeys ev1) \<inter> attemptedTrackKeys p = {}"
    "attemptedTrackKeys p1 = attemptedTrackKeys p \<union> set (resolvedKeys ev1)"
    "usedUris p \<subseteq> usedUris p1" "resolvedIn (usedUris p1) ev1"
    by (simp_all add: stageOK_def)
  from assms(2) have b: "distinct (resolvedKeys ev2)"
    "set (resolvedKeys ev2) \<inter> attemptedTrackKeys p1 = {}"
    "\<forall>p'. r = Inr p' \<longrightarrow>
            attemptedTrackKeys p' = attemptedTrackKeys p1 \<union> set (resolvedKeys ev2)
            \<and> usedUris p1 \<subseteq> usedUris p'
            \<and> resolvedIn (usedUris p') ev2"
    by (simp_all add: stageOK_def)
  have d: "distinct (resolvedKeys (ev1 @ ev2))"
    using a(1) b(1) b(2) a(3) by (auto simp: resolvedKeys_append)
  have e: "set (resolvedKeys (ev1 @ ev2)) \<inter> attemptedTrackKeys p = {}"
    using a(2) b(2) a(3) by (auto simp: resolvedKeys_append)
  have f: "\<forall>p'. r = Inr p' \<longrightarrow>
            attemptedTrackKeys p' = attemptedTrackKeys p \<union> set (resolvedKeys (ev1 @ ev2))
            \<and> usedUris p \<subseteq> usedUris p'
            \<and> resolvedIn (usedUris p') (ev1 @ ev2)"
  proof (intro allI impI)
    fix p' assume "r = Inr p'"
    with b(3) have c: "attemptedTrackKeys p' = attemptedTrackKeys p1 \<union> set (resolvedKeys ev2)"
      "usedUris p1 \<subseteq> usedUris p'" "resolvedIn (usedUris p') ev2" by simp_all
    have "resolvedIn (usedUris p') ev1" using a(5) c(2) by (rule resolvedIn_mono)
    with c a(3) a(4) show "attemptedTrackKeys p' = attemptedTrackKeys p \<union> set (resolvedKeys (ev1 @ ev2))
            \<and> usedUris p \<subseteq> usedUris p'
            \<and> resolvedIn (usedUris p') (ev1 @ ev2)"
      by (auto simp: resolvedKeys_append resolvedIn_append)
  qed
  show ?thesis unfolding stageOK_def using d e f by blast
qed

lemma query_some_uri:
  "queryLoop sv a qs x = (Inr (Some f), x') \<Longrightarrow> uri f \<noteq> []"
  by (induction qs arbitrary: x) (auto split: prod.splits sum.splits option.splits if_splits)

lemma find_some_uri:
  assumes "findSpotifyTrackUri sv c w = (Inr (Some f), w')"
  shows "uri f \<noteq> []"
proof -
  obtain r x where
    q: "queryLoop sv (artist c)
          [''track:'' @ title c @ '' artist:'' @ artist c, title c @ '' '' @ artist c] (ext w) = (r, x)"
    by force
  with assms have "r = Inr (Some f)"
    by (simp add: findSpotifyTrackUri_def Let_def del: queryLoop.simps)
  with q have "queryLoop sv (artist c)
          [''track:'' @ title c @ '' artist:'' @ artist c, title c @ '' '' @ artist c] (ext w)
        = (Inr (Some f), x)"
    by (simp only:)
  then show ?thesis by (rule query_some_uri)
qed

lemma stage_step:
  assumes "findSpotifyTrackUri sv c w = (Inr m, w1)"
    and "makeTrackKey (title c) (artist c) \<notin> attemptedTrackKeys p"
  shows "stageOK p [Resolve c (Inr m)]
           (Inr (pushMatch c m (p\<lparr>attemptedTrackKeys :=
                   insert (makeTrackKey (title c) (artist c)) (attemptedTrackKeys p)\<rparr>)))"
proof (cases m)
  case None
  then show ?thesis using assms(2)
    by (auto simp: stageOK_def resolvedKeys_def resolvedIn_def pushMatch_def)
next
  case (Some f)
  with assms(1) have "uri f \<noteq> []" using find_some_uri by blast
  with Some show ?thesis using assms(2)
    by (auto simp: stageOK_def resolvedKeys_def resolvedIn_def pushMatch_def)
qed

lemma stage_fail:
  assumes "makeTrackKey (title c) (artist c) \<notin> attemptedTrackKeys p"
  shows "stageOK p [Resolve c (Inl e)] (Inl e')"
  using assms by (simp add: stageOK_def resolvedKeys_def)

lemma match_stage:
  "matchCandidatesToSpotify sv cs p w = (r, w') \<Longrightarrow>
   \<exists>ev. trace w' = trace w @ ev \<and> stageOK p ev r"
proof (induction cs arbitrary: p w)
  case Nil
  then show ?case using stage_nil by (intro exI [of _ "[]"]) auto
next
  case (Cons c cs)
  let ?k = "makeTrackKey (title c) (artist c)"
  show ?case
  proof (cases "?k \<in> attemptedTrackKeys p")
    case True
    with Cons.prems have "matchCandidatesToSpotify sv cs p w = (r, w')" by simp
    then show ?thesis by (rule Cons.IH)
  next
    case False
    obtain f w1 where f: "findSpotifyTrackUri sv c w = (f, w1)" by force
    have t1: "trace w1 = trace w @ [Resolve c f]" using f by (rule find_trace)
    show ?thesis
    proof (cases f)
      case (Inl e)
      with Cons.prems False f have "r = Inl e" "w' = w1" by simp_all
      with t1 Inl show ?thesis using stage_fail [OF False]
        by (intro exI [of _ "[Resolve c (Inl e)]"]) simp
    next
      case (Inr m)
      let ?p1 = "pushMatch c m (p\<lparr>attemptedTrackKeys := insert ?k (attemptedTrackKeys p)\<rparr>)"
      from Inr Cons.prems False f have "matchCandidatesToSpotify sv cs ?p1 w1 = (r, w')" by simp
      from Cons.IH [OF this] obtain ev where ev: "trace w' = trace w1 @ ev" "stageOK ?p1 ev r"
        by blast
      have "stageOK p [Resolve c (Inr m)] (Inr ?p1)"
        using f False unfolding Inr by (rule stage_step)
      then have "stageOK p ([Resolve c (Inr m)] @ ev) r" using ev(2) by (rule stage_comp)
      with t1 ev(1) Inr show ?thesis by (intro exI [of _ "[Resolve c (Inr m)] @ ev"]) simp
    qed
  qed
qed

lemma expand_stage:
  "expandLoop sv d desired attempt p w = (r, w') \<Longrightarrow>
   \<exists>ev. trace w' = trace w @ ev \<and> stageOK p ev r"
proof (induction sv d desired attempt p w arbitrary: r w' rule: expandLoop.induct)
  case (1 sv d desired attempt p w)
  let ?c = "generateCountFor desired p"
  let ?x = "excludedTracksFor p"
  show ?case
  proof (cases "poolShort desired p \<and> attempt < 8")
    case False
    with "1.prems" have "r = Inr p" "w' = w" by (simp_all add: expandLoop.simps)
    then show ?thesis using stage_nil by (intro exI [of _ "[]"]) auto
  next
    case True
    obtain g w1 where g: "generateTracklist sv d ?c ?x w = (g, w1)" by force
    have t1: "trace w1 = trace w @ [Generate ?c ?x]" using g by (rule gen_trace)
    show ?thesis
    proof (cases g)
      case (Inl e)
      with "1.prems" True g have "r = Inl e" "w' = logEvent (Round (attempt + 1) p ?c ?x (Inl e)) w1"
        by (simp_all add: expandLoop.simps)
      then show ?thesis using t1
        by (intro exI [of _ "[Generate ?c ?x, Round (attempt + 1) p ?c ?x (Inl e)]"])
           (simp add: logEvent_def stageOK_def resolvedKeys_def)
    next
      case (Inr gen)
      let ?rd = "Round (attempt + 1) p ?c ?x (Inr gen)"
      obtain m w2 where m: "matchCandidatesToSpotify sv gen p (logEvent ?rd w1) = (m, w2)" by force
      from match_stage [OF m] obtain evm where
        evm: "trace w2 = trace (logEvent ?rd w1) @ evm" "stageOK p evm m" by blast
      show ?thesis
      proof (cases m)
        case (Inl e)
        with "1.prems" True g \<open>g = Inr gen\<close> m have "r = Inl e" "w' = w2"
          by (simp_all add: expandLoop.simps)
        moreover have "stageOK p (?rd # evm) m" using evm(2) by (rule stage_round)
        then have "stageOK p (Generate ?c ?x # ?rd # evm) m" by (rule stage_generate)
        ultimately show ?thesis using t1 evm(1) Inl
          by (intro exI [of _ "Generate ?c ?x # ?rd # evm"]) (simp add: logEvent_def)
      next
        case (Inr p1)
        with "1.prems" True g \<open>g = Inr gen\<close> m have
          rec: "expandLoop sv d desired (attempt + 1) p1 w2 = (r, w')"
          by (simp add: expandLoop.simps)
        from "1.IH" [OF True g [symmetric] \<open>g = Inr gen\<close> m [symmetric] Inr rec]
        obtain ev where ev: "trace w' = trace w2 @ ev" "stageOK p1 ev r" by blast
        have "stageOK p (evm @ ev) r" using evm(2) ev(2) unfolding Inr by (rule stage_comp)
        then have "stageOK p (?rd # evm @ ev) r" by (rule stage_round)
        then have "stageOK p (Generate ?c ?x # ?rd # evm @ ev) r" by (rule stage_generate)
        then show ?thesis using t1 evm(1) ev(1)
          by (intro exI [of _ "Generate ?c ?x # ?rd # evm @ ev"]) (simp add: logEvent_def)
      qed
    qed
  qed
qed

lemma fill_stage:
  assumes "fillPool sv d desired seeds w = (r, w')"
  shows "\<exists>ev. trace w' = trace w @ ev \<and> stageOK emptyPool ev r"
proof -
  obtain m1 w1 where m1: "matchCandidatesToSpotify sv seeds emptyPool w = (m1, w1)" by force
  from match_stage [OF m1] obtain ev1 where
    ev1: "trace w1 = trace w @ ev1" "stageOK emptyPool ev1 m1" by blast
  show ?thesis
  proof (cases m1)
    case (Inl e)
    with assms m1 have "r = Inl e" "w' = w1" by (simp_all add: fillPool_def)
    with ev1 Inl show ?thesis by (intro exI [of _ ev1]) simp
  next
    case (Inr p1)
    obtain x w2 where x: "expandLoop sv d desired 0 p1 w1 = (x, w2)" by force
    from expand_stage [OF x] obtain ev2 where
      ev2: "trace w2 = trace w1 @ ev2" "stageOK p1 ev2 x" by blast
    have s12: "stageOK emptyPool (ev1 @ ev2) x"
      using ev1(2) ev2(2) unfolding Inr by (rule stage_comp)
    show ?thesis
    proof (cases x)
      case (Inl e)
      with assms m1 \<open>m1 = Inr p1\<close> x have "r = Inl e" "w' = w2" by (simp_all add: fillPool_def)
      with s12 ev1(1) ev2(1) Inl show ?thesis by (intro exI [of _ "ev1 @ ev2"]) simp
    next
      case (Inr p2)
      show ?thesis
      proof (cases "poolShort desired p2")
        case False
        with assms m1 \<open>m1 = Inr p1\<close> x Inr have "r = Inr p2" "w' = w2"
          by (simp_all add: fillPool_def)
        with s12 ev1(1) ev2(1) Inr show ?thesis by (intro exI [of _ "ev1 @ ev2"]) simp
      next
        case True
        with assms m1 \<open>m1 = Inr p1\<close> x Inr have
          fb: "matchCandidatesToSpotify sv EMERGENCY_FALLBACK_TRACKS p2 w2 = (r, w')"
          by (simp add: fillPool_def)
        from match_stage [OF fb] obtain ev3 where
          ev3: "trace w' = trace w2 @ ev3" "stageOK p2 ev3 r" by blast
        have "stageOK emptyPool ((ev1 @ ev2) @ ev3) r"
          using s12 ev3(2) unfolding Inr by (rule stage_comp)
        then show ?thesis using ev1(1) ev2(1) ev3(1)
          by (intro exI [of _ "(ev1 @ ev2) @ ev3"]) simp
      qed
    qed
  qed
qed

lemma build_stage:
  assumes "buildMatchedTrackPool sv d desired seeds w = (r, w')"
  shows "\<exists>f ev. fillPool sv d desired seeds (logEvent (BuildPool desired) w) = (f, w')
           \<and> trace w' = trace w @ BuildPool desired # ev \<and> stageOK emptyPool ev f"
proof -
  obtain f w1 where f: "fillPool sv d desired seeds (logEvent (BuildPool desired) w) = (f, w1)"
    by force
  have w1: "w1 = w'" using assms f by (auto simp: buildMatchedTrackPool_def split: sum.splits)
  from fill_stage [OF f] obtain ev where
    "trace w1 = trace (logEvent (BuildPool desired) w) @ ev" "stageOK emptyPool ev f" by blast
  with f w1 show ?thesis by (auto simp: logEvent_def)
qed


section \<open>Trimming and slicing\<close>







section \<open>Clamp and callers\<close>








section \<open>Requests of the expansion rounds\<close>

lemma poolAfter_Nil: "poolAfter p [] = p"
  by (simp add: poolAfter_def)

lemma poolAfter_Cons: "poolAfter p (e # ev) = poolAfter (replayEvent p e) ev"
  by (simp add: poolAfter_def)

lemma poolAfter_append: "poolAfter p (a @ b) = poolAfter (poolAfter p a) b"
  by (simp add: poolAfter_def)

lemma requestsOf_append:
  "requestsOf p (a @ b) = requestsOf p a @ requestsOf (poolAfter p a) b"
  by (induction p a rule: requestsOf.induct) (simp_all add: poolAfter_Nil poolAfter_Cons)

lemma requestsOf_resolves: "\<forall>e\<in>set ev. isResolve e \<Longrightarrow> requestsOf p ev = []"
proof (induction ev arbitrary: p)
  case Nil
  then show ?case by simp
next
  case (Cons e ev)
  then show ?case by (cases e) simp_all
qed

lemma match_replay:
  "matchCandidatesToSpotify sv cs p w = (r, w') \<Longrightarrow>
   \<exists>ev. trace w' = trace w @ ev \<and> (\<forall>e\<in>set ev. isResolve e)
      \<and> (\<forall>p'. r = Inr p' \<longrightarrow> p' = poolAfter p ev)"
proof (induction cs arbitrary: p w)
  case Nil
  then show ?case by (intro exI [of _ "[]"]) (auto simp: poolAfter_Nil)
next
  case (Cons c cs)
  show ?case
  proof (cases "makeTrackKey (title c) (artist c) \<in> attemptedTrackKeys p")
    case True
    with Cons.prems have "matchCandidatesToSpotify sv cs p w = (r, w')" by simp
    then show ?thesis by (rule Cons.IH)
  next
    case False
    obtain f w1 where f: "findSpotifyTrackUri sv c w = (f, w1)" by force
    have t1: "trace w1 = trace w @ [Resolve c f]" using f by (rule find_trace)
    show ?thesis
    proof (cases f)
      case (Inl e)
      with Cons.prems False f have "w' = w1" "r = Inl e" by simp_all
      with t1 show ?thesis by (intro exI [of _ "[Resolve c f]"]) simp
    next
      case (Inr m)
      let ?p1 = "pushMatch c m (p\<lparr>attemptedTrackKeys :=
                   insert (makeTrackKey (title c) (artist c)) (attemptedTrackKeys p)\<rparr>)"
      from Inr Cons.prems False f have "matchCandidatesToSpotify sv cs ?p1 w1 = (r, w')"
        by simp
      from Cons.IH [OF this] obtain ev where
        ev: "trace w' = trace w1 @ ev" "\<forall>e\<in>set ev. isResolve e"
            "\<forall>p'. r = Inr p' \<longrightarrow> p' = poolAfter ?p1 ev"
        by blast
      have "poolAfter p (Resolve c f # ev) = poolAfter ?p1 ev"
        unfolding Inr by (simp add: poolAfter_Cons)
      with ev t1 show ?thesis by (intro exI [of _ "Resolve c f # ev"]) simp
    qed
  qed
qed

lemma expand_requests:
  "expandLoop sv d desired attempt p w = (r, w') \<Longrightarrow>
   \<exists>ev. trace w' = trace w @ ev
      \<and> length (requestsOf p ev) \<le> 8 - attempt
      \<and> (\<forall>q n x. (q, n, x) \<in> set (requestsOf p ev) \<longrightarrow>
            n = generateCountFor desired q \<and> x = excludedTracksFor q \<and> poolShort desired q)
      \<and> (\<forall>p'. r = Inr p' \<longrightarrow>
            p' = poolAfter p ev
            \<and> (poolShort desired p' \<longrightarrow> length (requestsOf p ev) = 8 - attempt))"
proof (induction sv d desired attempt p w arbitrary: r w' rule: expandLoop.induct)
  case (1 sv d desired attempt p w)
  let ?c = "generateCountFor desired p"
  let ?x = "excludedTracksFor p"
  let ?g = "Generate ?c ?x"
  show ?case
  proof (cases "poolShort desired p \<and> attempt < 8")
    case False
    with "1.prems" have "w' = w" "r = Inr p" by (simp_all add: expandLoop.simps)
    then show ?thesis using False by (intro exI [of _ "[]"]) (auto simp: poolAfter_Nil)
  next
    case True
    obtain g w1 where g: "generateTracklist sv d ?c ?x w = (g, w1)" by force
    have t1: "trace w1 = trace w @ [?g]" using g by (rule gen_trace)
    show ?thesis
    proof (cases g)
      case (Inl e)
      let ?rd = "Round (attempt + 1) p ?c ?x (Inl e)"
      from Inl "1.prems" True g have "r = Inl e" "w' = logEvent ?rd w1"
        by (simp_all add: expandLoop.simps)
      then show ?thesis using t1 True
        by (intro exI [of _ "[?g, ?rd]"]) (auto simp: logEvent_def)
    next
      case (Inr gen)
      let ?rd = "Round (attempt + 1) p ?c ?x (Inr gen)"
      obtain m w2 where m: "matchCandidatesToSpotify sv gen p (logEvent ?rd w1) = (m, w2)" by force
      from match_replay [OF m] obtain evm where
        evm: "trace w2 = trace (logEvent ?rd w1) @ evm" "\<forall>e\<in>set evm. isResolve e"
             "\<forall>p'. m = Inr p' \<longrightarrow> p' = poolAfter p evm"
        by blast
      have rq: "requestsOf p evm = []" using evm(2) by (rule requestsOf_resolves)
      show ?thesis
      proof (cases m)
        case (Inl e)
        with "1.prems" True g \<open>g = Inr gen\<close> m have "r = Inl e" "w' = w2"
          by (simp_all add: expandLoop.simps)
        then show ?thesis using t1 True evm(1) rq
          by (intro exI [of _ "?g # ?rd # evm"]) (auto simp: logEvent_def)
      next
        case (Inr p1)
        with "1.prems" True g \<open>g = Inr gen\<close> m have
          rec: "expandLoop sv d desired (attempt + 1) p1 w2 = (r, w')"
          by (simp add: expandLoop.simps)
        from "1.IH" [OF True g [symmetric] \<open>g = Inr gen\<close> m [symmetric] Inr rec]
        obtain ev where ev: "trace w' = trace w2 @ ev"
          "length (requestsOf p1 ev) \<le> 8 - (attempt + 1)"
          "\<forall>q n x. (q, n, x) \<in> set (requestsOf p1 ev) \<longrightarrow>
             n = generateCountFor desired q \<and> x = excludedTracksFor q \<and> poolShort desired q"
          "\<forall>p'. r = Inr p' \<longrightarrow>
             p' = poolAfter p1 ev
             \<and> (poolShort desired p' \<longrightarrow> length (requestsOf p1 ev) = 8 - (attempt + 1))"
          by blast
        have p1: "p1 = poolAfter p evm" using evm(3) Inr by simp
        have tr: "trace w' = trace w @ (?g # ?rd # evm @ ev)"
          using ev(1) evm(1) t1 by (simp add: logEvent_def)
        have ro: "requestsOf p (?g # ?rd # evm @ ev) = (p, ?c, ?x) # requestsOf p1 ev"
          by (simp add: requestsOf_append rq p1 [symmetric])
        have pa: "poolAfter p (?g # ?rd # evm @ ev) = poolAfter p1 ev"
          by (simp add: poolAfter_Cons poolAfter_append p1 [symmetric])
        have a: "length (requestsOf p (?g # ?rd # evm @ ev)) \<le> 8 - attempt"
          unfolding ro using ev(2) True by simp arith
        have b: "\<forall>q n x. (q, n, x) \<in> set (requestsOf p (?g # ?rd # evm @ ev)) \<longrightarrow>
             n = generateCountFor desired q \<and> x = excludedTracksFor q \<and> poolShort desired q"
          unfolding ro using ev(3) True by auto
        have s8: "Suc (8 - (attempt + 1)) = 8 - attempt" using True by arith
        have c: "\<forall>p'. r = Inr p' \<longrightarrow>
             p' = poolAfter p (?g # ?rd # evm @ ev)
             \<and> (poolShort desired p' \<longrightarrow>
                  length (requestsOf p (?g # ?rd # evm @ ev)) = 8 - attempt)"
          unfolding ro pa using ev(4) s8 by auto
        show ?thesis using tr a b c by blast
      qed
    qed
  qed
qed

lemma fill_requests:
  assumes "fillPool sv d desired seeds w = (r, w')"
  shows "\<exists>ev. trace w' = trace w @ ev
      \<and> length (requestsOf emptyPool ev) \<le> 8
      \<and> (\<forall>q n x. (q, n, x) \<in> set (requestsOf emptyPool ev) \<longrightarrow>
            n = generateCountFor desired q \<and> x = excludedTracksFor q \<and> poolShort desired q)
      \<and> (\<forall>p'. r = Inr p' \<longrightarrow>
            p' = poolAfter emptyPool ev
            \<and> (poolShort desired p' \<longrightarrow> length (requestsOf emptyPool ev) = 8))"
proof -
  obtain m1 w1 where m1: "matchCandidatesToSpotify sv seeds emptyPool w = (m1, w1)" by force
  from match_replay [OF m1] obtain ev1 where
    ev1: "trace w1 = trace w @ ev1" "\<forall>e\<in>set ev1. isResolve e"
         "\<forall>p'. m1 = Inr p' \<longrightarrow> p' = poolAfter emptyPool ev1"
    by blast
  have rq1: "requestsOf emptyPool ev1 = []" using ev1(2) by (rule requestsOf_resolves)
  show ?thesis
  proof (cases m1)
    case (Inl e)
    with assms m1 have "r = Inl e" "w' = w1" by (simp_all add: fillPool_def)
    with ev1(1) rq1 show ?thesis by (intro exI [of _ ev1]) simp
  next
    case (Inr p1)
    have p1: "p1 = poolAfter emptyPool ev1" using ev1(3) Inr by simp
    obtain x w2 where x: "expandLoop sv d desired 0 p1 w1 = (x, w2)" by force
    from expand_requests [OF x] obtain ev2 where
      ev2: "trace w2 = trace w1 @ ev2"
        "length (requestsOf p1 ev2) \<le> 8 - 0"
        "\<forall>q n x. (q, n, x) \<in> set (requestsOf p1 ev2) \<longrightarrow>
           n = generateCountFor desired q \<and> x = excludedTracksFor q \<and> poolShort desired q"
        "\<forall>p'. x = Inr p' \<longrightarrow>
           p' = poolAfter p1 ev2
           \<and> (poolShort desired p' \<longrightarrow> length (requestsOf p1 ev2) = 8 - 0)"
      by blast
    have ro: "requestsOf emptyPool (ev1 @ ev2) = requestsOf p1 ev2"
      by (simp add: requestsOf_append rq1 p1 [symmetric])
    show ?thesis
    proof (cases x)
      case (Inl e)
      with assms m1 \<open>m1 = Inr p1\<close> x have "r = Inl e" "w' = w2" by (simp_all add: fillPool_def)
      then show ?thesis using ev1(1) ev2(1) ev2(2) ev2(3) ro
        by (intro exI [of _ "ev1 @ ev2"]) simp
    next
      case (Inr p2)
      have p2: "p2 = poolAfter p1 ev2"
        and full: "poolShort desired p2 \<longrightarrow> length (requestsOf p1 ev2) = 8"
        using ev2(4) Inr by simp_all
      show ?thesis
      proof (cases "poolShort desired p2")
        case False
        with assms m1 \<open>m1 = Inr p1\<close> x Inr have "r = Inr p2" "w' = w2"
          by (simp_all add: fillPool_def)
        moreover have "poolAfter emptyPool (ev1 @ ev2) = p2"
          by (simp add: poolAfter_append p1 [symmetric] p2 [symmetric])
        ultimately show ?thesis using ev1(1) ev2(1) ev2(2) ev2(3) ro False
          by (intro exI [of _ "ev1 @ ev2"]) simp
      next
        case True
        with assms m1 \<open>m1 = Inr p1\<close> x Inr have
          fb: "matchCandidatesToSpotify sv EMERGENCY_FALLBACK_TRACKS p2 w2 = (r, w')"
          by (simp add: fillPool_def)
        from match_replay [OF fb] obtain ev3 where
          ev3: "trace w' = trace w2 @ ev3" "\<forall>e\<in>set ev3. isResolve e"
               "\<forall>p'. r = Inr p' \<longrightarrow> p' = poolAfter p2 ev3"
          by blast
        have rq3: "requestsOf p2 ev3 = []" using ev3(2) by (rule requestsOf_resolves)
        have ro3: "requestsOf emptyPool (ev1 @ ev2 @ ev3) = requestsOf p1 ev2"
          by (simp add: requestsOf_append rq1 rq3 p1 [symmetric] p2 [symmetric])
        have pa3: "poolAfter emptyPool (ev1 @ ev2 @ ev3) = poolAfter p2 ev3"
          by (simp add: poolAfter_append p1 [symmetric] p2 [symmetric])
        have len: "length (requestsOf p1 ev2) = 8" using full True by simp
        show ?thesis using ev1(1) ev2(1) ev3(1) ev2(3) ev3(3) ro3 pa3 len
          by (intro exI [of _ "ev1 @ ev2 @ ev3"]) simp
      qed
    qed
  qed
qed

lemma build_requests:
  assumes "buildMatchedTrackPool sv d desired seeds w = (r, w')"
  shows "\<exists>ev. trace w' = trace w @ BuildPool desired # ev
      \<and> length (requestsOf emptyPool ev) \<le> 8
      \<and> (\<forall>q n x. (q, n, x) \<in> set (requestsOf emptyPool ev) \<longrightarrow>
            n = generateCountFor desired q \<and> x = excludedTracksFor q \<and> poolShort desired q)
      \<and> ((\<forall>e. r = Inl e \<longrightarrow> isInsufficient e) \<and> length (requestsOf emptyPool ev) < 8
            \<longrightarrow> \<not> poolShort desired (poolAfter emptyPool ev))"
proof -
  obtain f w1 where f: "fillPool sv d desired seeds (logEvent (BuildPool desired) w) = (f, w1)"
    by force
  from fill_requests [OF f] obtain ev where
    ev: "trace w1 = trace (logEvent (BuildPool desired) w) @ ev"
      "length (requestsOf emptyPool ev) \<le> 8"
      "\<forall>q n x. (q, n, x) \<in> set (requestsOf emptyPool ev) \<longrightarrow>
         n = generateCountFor desired q \<and> x = excludedTracksFor q \<and> poolShort desired q"
      "\<forall>p'. f = Inr p' \<longrightarrow>
         p' = poolAfter emptyPool ev
         \<and> (poolShort desired p' \<longrightarrow> length (requestsOf emptyPool ev) = 8)"
    by blast
  have w': "w' = w1" using assms f by (auto simp: buildMatchedTrackPool_def split: sum.splits)
  have tr: "trace w' = trace w @ BuildPool desired # ev"
    using ev(1) w' by (simp add: logEvent_def)
  have "\<not> poolShort desired (poolAfter emptyPool ev)"
    if ok: "\<forall>e. r = Inl e \<longrightarrow> isInsufficient e" and lt: "length (requestsOf emptyPool ev) < 8"
  proof (cases f)
    case (Inl e)
    with assms f have "r = Inl e" by (simp add: buildMatchedTrackPool_def)
    with ok have "isInsufficient e" by simp
    moreover from f Inl have "\<not> isInsufficient e" using fill_err by blast
    ultimately show ?thesis by simp
  next
    case (Inr p')
    with ev(4) have "p' = poolAfter emptyPool ev"
      "poolShort desired p' \<longrightarrow> length (requestsOf emptyPool ev) = 8" by simp_all
    with lt show ?thesis by auto
  qed
  with tr ev(2) ev(3) show ?thesis by blast
qed

lemma expand_first_request:
  assumes "poolShort desired p" and "attempt < 8"
  shows "\<exists>rest. trace (snd (expandLoop sv d desired attempt p w))
           = trace w @ Generate (generateCountFor desired p) (excludedTracksFor p) # rest"
proof -
  let ?c = "generateCountFor desired p"
  let ?x = "excludedTracksFor p"
  obtain g w1 where g: "generateTracklist sv d ?c ?x w = (g, w1)" by force
  have t1: "trace w1 = trace w @ [Generate ?c ?x]" using g by (rule gen_trace)
  show ?thesis
  proof (cases g)
    case (Inl e)
    with assms g have "snd (expandLoop sv d desired attempt p w)
        = logEvent (Round (attempt + 1) p ?c ?x (Inl e)) w1"
      by (simp add: expandLoop.simps)
    with t1 show ?thesis by (simp add: logEvent_def)
  next
    case (Inr gen)
    let ?rd = "Round (attempt + 1) p ?c ?x (Inr gen)"
    obtain m w2 where m: "matchCandidatesToSpotify sv gen p (logEvent ?rd w1) = (m, w2)" by force
    from match_trace [OF m] obtain evm where
      evm: "trace w2 = trace (logEvent ?rd w1) @ evm" by blast
    show ?thesis
    proof (cases m)
      case (Inl e)
      with assms g \<open>g = Inr gen\<close> m have "snd (expandLoop sv d desired attempt p w) = w2"
        by (simp add: expandLoop.simps)
      with t1 evm show ?thesis by (simp add: logEvent_def)
    next
      case (Inr p1)
      obtain r w3 where rec: "expandLoop sv d desired (attempt + 1) p1 w2 = (r, w3)" by force
      from expand_trace_raw [OF rec] obtain ev where ev: "trace w3 = trace w2 @ ev" by blast
      from Inr assms g \<open>g = Inr gen\<close> m rec have "snd (expandLoop sv d desired attempt p w) = w3"
        by (simp add: expandLoop.simps)
      with t1 evm ev show ?thesis by (simp add: logEvent_def)
    qed
  qed
qed

section \<open>Facts for the concrete runs\<close>

lemma demo_keys:
  "makeTrackKey ''Blinding Lights'' ''The Weeknd'' = ''blinding lights|the weeknd''"
  "makeTrackKey ''Dreams'' ''Fleetwood Mac'' = ''dreams|fleetwood mac''"
  "makeTrackKey ''Electric Feel'' ''MGMT'' = ''electric feel|mgmt''"
  "makeTrackKey ''Sunset Lover'' ''Petit Biscuit'' = ''sunset lover|petit biscuit''"
  "makeTrackKey ''Midnight City'' ''M83'' = ''midnight city|m83''"
  "makeTrackKey ''Tame'' ''STRFKR'' = ''tame|strfkr''"
  "makeTrackKey ''Intro'' ''The xx'' = ''intro|the xx''"
  "makeTrackKey ''Innerbloom'' ''RUFUS DU SOL'' = ''innerbloom|rufus du sol''"
  "makeTrackKey ''Something About Us'' ''Daft Punk'' = ''something about us|daft punk''"
  "makeTrackKey ''A Moment Apart'' ''ODESZA'' = ''a moment apart|odesza''"
  "makeTrackKey ''a'' ''zz'' = ''a|zz''"
  "makeTrackKey ''b'' ''zz'' = ''b|zz''"
  "makeTrackKey ''c'' ''zz'' = ''c|zz''"
  "makeTrackKey ''d'' ''zz'' = ''d|zz''"
  "makeTrackKey ''e'' ''zz'' = ''e|zz''"
  "makeTrackKey ''f'' ''zz'' = ''f|zz''"
  "makeTrackKey ''q'' ''qq'' = ''q|qq''"
  "makeTrackKey ''Dreams'' ''zz'' = ''dreams|zz''"
  "makeTrackKey ''dreams!'' ''ZZ'' = ''dreams|zz''"
  by code_simp+

lemma demo_scores:
  "getArtistConfidence [\<lparr>name = ''zz''\<rparr>] ''zz'' = 1"
  "getArtistConfidence [\<lparr>name = ''zz''\<rparr>] ''ZZ'' = 1"
  "getArtistConfidence [\<lparr>name = ''zz''\<rparr>] ''qq'' = 0"
  "getArtistConfidence [\<lparr>name = ''zz''\<rparr>] ''The Weeknd'' = 0"
  "getArtistConfidence [\<lparr>name = ''zz''\<rparr>] ''Fleetwood Mac'' = 0"
  "getArtistConfidence [\<lparr>name = ''zz''\<rparr>] ''MGMT'' = 0"
  "getArtistConfidence [\<lparr>name = ''zz''\<rparr>] ''Petit Biscuit'' = 0"
  "getArtistConfidence [\<lparr>name = ''zz''\<rparr>] ''M83'' = 0"
  "getArtistConfidence [\<lparr>name = ''zz''\<rparr>] ''STRFKR'' = 0"
  "getArtistConfidence [\<lparr>name = ''zz''\<rparr>] ''The xx'' = 0"
  "getArtistConfidence [\<lparr>name = ''zz''\<rparr>] ''RUFUS DU SOL'' = 0"
  "getArtistConfidence [\<lparr>name = ''zz''\<rparr>] ''Daft Punk'' = 0"
  "getArtistConfidence [\<lparr>name = ''zz''\<rparr>] ''ODESZA'' = 0"
  by code_simp+

lemma demo_trims:
  "trim ''a'' = ''a''" "trim ''b'' = ''b''" "trim ''c'' = ''c''" "trim ''d'' = ''d''"
  "trim ''e'' = ''e''" "trim ''zz'' = ''zz''" "trim ''ZZ'' = ''ZZ''"
  "trim ''Dreams'' = ''Dreams''" "trim ''dreams!'' = ''dreams!''"
  by code_simp+

lemma demo_floors: "\<lfloor>11 / 2 :: rat\<rfloor> = 5" "\<lfloor>15 / 2 :: rat\<rfloor> = 7"
  by (rule floor_unique, simp, simp)+

lemmas run_defs = demoServices_def noTrack_def anyTrack_def tracksJson_def w0_def emptyPool_def
  demoSeeds_def demoEntry_def demoPool_def emptyPreview_def
  EMERGENCY_FALLBACK_TRACKS_def findSpotifyTrackUri_def logEvent_def
  pushMatch_def previewStep_def pickBestTrackCandidate_def Let_def buildMatchedTrackPool_def
  fillPool_def finishPool_def duplicateFill_def cloneEntry_def expandLoop.simps dupFillLoop.simps
  poolShort_def generateCountFor_def excludedTracksFor_def generateTracklist_def
  parsePotentialJson_def tracksOfParsed_def hasTitleAndArtist_def toCandidate_def slice0_def
  truncInt_def clampTrackCount_def falsyNum_def createPlaylistFromInputs_def previewPlaylist_def
  resolvedKeys_def demo_keys demo_scores demo_trims demo_floors mod_Suc
  roundDouble_numeral roundDouble_numeral_half

lemma run_split: "\<not> isl (fst run) \<Longrightarrow> run = (Inr (projr (fst run)), snd run)"
  by (cases run, cases "fst run") auto

section \<open>The reconciliation run: length and uniqueness\<close>

text \<open>
  C1 (the returned matched list has length exactly the desired count) fails for a desired
  count that is not an integer, which \<open>clampTrackCount\<close> lets through: a request with
  the track count 5.5 and six approved tracks that all resolve enters
  \<open>buildMatchedTrackPool\<close> with the desired count 5.5 and returns the first five entries
  (\<open>slice\<close> truncates its end), and 5 is not 5.5.
\<close>

theorem buildMatchedTrackPool_fractional_count:
  "clampTrackCount (demoServices anyTrack (Inr ''{}'') (tracksJson [])) (JNum (Fin (11 / 2)))
     = Fin (11 / 2)
   \<and> BuildPool (11 / 2) \<in> set (trace (snd (createPlaylistFromInputs
         (demoServices anyTrack (Inr ''{}'') (tracksJson [])) ''chill'' (JNum (Fin (11 / 2)))
         (map demoEntry [''a'', ''b'', ''c'', ''d'', ''e'', ''f'']) w0)))
   \<and> \<not> isl (fst (createPlaylistFromInputs
         (demoServices anyTrack (Inr ''{}'') (tracksJson [])) ''chill'' (JNum (Fin (11 / 2)))
         (map demoEntry [''a'', ''b'', ''c'', ''d'', ''e'', ''f'']) w0))
   \<and> length (matched (projr (fst (createPlaylistFromInputs
         (demoServices anyTrack (Inr ''{}'') (tracksJson [])) ''chill'' (JNum (Fin (11 / 2)))
         (map demoEntry [''a'', ''b'', ''c'', ''d'', ''e'', ''f'']) w0)))) = 5
   \<and> of_nat (length (matched (projr (fst (buildMatchedTrackPool
         (demoServices anyTrack (Inr ''{}'') (tracksJson [])) ''chill'' (11 / 2)
         (demoSeeds [''a'', ''b'', ''c'', ''d'', ''e'', ''f'']) w0)))))
       \<noteq> (11 / 2 :: rat)"
  by (simp add: run_defs)

text \<open>
  For every desired count that is a non-negative integer \<open>n\<close> the property holds: a run
  of \<open>buildMatchedTrackPool\<close> that returns normally returns a matched list of length
  exactly \<open>n\<close>; the entries not marked \<open>duplicated\<close> have pairwise distinct uris, and
  whenever two entries have the same uri the later one is marked \<open>duplicated\<close>.
\<close>

lemma buildMatchedTrackPool_exact_length_unique_uris:
  assumes "buildMatchedTrackPool sv d (of_nat n) seeds w = (Inr res, w')"
  shows "length (matched res) = n
       \<and> distinct (map uri (filter (\<lambda>e. \<not> duplicated e) (matched res)))
       \<and> (\<forall>i j. i < j \<and> j < length (matched res)
                 \<and> uri (matched res ! i) = uri (matched res ! j)
              \<longrightarrow> duplicated (matched res ! j))"
proof -
  obtain f w1 where
    f: "fillPool sv d (of_nat n) seeds (logEvent (BuildPool (of_nat n)) w) = (f, w1)"
    by force
  from assms f obtain p where p: "f = Inr p" and fin: "finishPool (of_nat n) p = Inr res"
    by (cases f) (auto simp: buildMatchedTrackPool_def)
  have inv: "poolInv p" using f p fill_inv by blast
  let ?b = "matched p"
  from finishPool_cases [of "of_nat n" p] obtain cl where
    cl: "\<forall>e\<in>set cl. duplicated e"
        "finishPool (of_nat n) p =
           (if of_nat (length (?b @ cl)) < (of_nat n :: rat)
            then Inl (InsufficientMatchesError (length (?b @ cl)) (of_nat n))
            else Inr \<lparr>matched = slice0 (?b @ cl) (of_nat n), unmatched = unmatched p,
                      duplicateFillCount = length cl\<rparr>)"
    by blast
  from cl(2) fin have ge: "n \<le> length (?b @ cl)" and m: "matched res = take n (?b @ cl)"
    by (auto simp: slice0_of_nat split: if_splits)
  have dist: "distinct (map uri ?b)" and nd: "\<forall>e\<in>set ?b. \<not> duplicated e"
    using inv by (simp_all add: poolInv_def)
  have len: "length (matched res) = n" using m ge by simp
  have f1: "filter (\<lambda>e. \<not> duplicated e) (take n ?b) = take n ?b"
    using nd by (auto simp: filter_id_conv dest: in_set_takeD)
  have f2: "filter (\<lambda>e. \<not> duplicated e) (take (n - length ?b) cl) = []"
    using cl(1) by (auto simp: filter_empty_conv dest: in_set_takeD)
  have "filter (\<lambda>e. \<not> duplicated e) (matched res) = take n ?b"
    unfolding m by (simp add: f1 f2)
  moreover have "distinct (map uri (take n ?b))"
    using dist by (simp add: take_map [symmetric] distinct_take)
  ultimately have d1: "distinct (map uri (filter (\<lambda>e. \<not> duplicated e) (matched res)))"
    by simp
  have d2: "\<forall>i j. i < j \<and> j < length (matched res)
                 \<and> uri (matched res ! i) = uri (matched res ! j)
              \<longrightarrow> duplicated (matched res ! j)"
  proof (intro allI impI)
    fix i j assume a: "i < j \<and> j < length (matched res)
                 \<and> uri (matched res ! i) = uri (matched res ! j)"
    then have ij: "i < j" "j < n" "i < n" using len by auto
    have nj: "matched res ! j = (?b @ cl) ! j"
      unfolding m using ij(2) by (rule nth_take)
    have ni: "matched res ! i = (?b @ cl) ! i"
      unfolding m using ij(3) by (rule nth_take)
    show "duplicated (matched res ! j)"
    proof (cases "j < length ?b")
      case True
      then have "i < length ?b" using ij by simp
      with True a ni nj have "map uri ?b ! i = map uri ?b ! j"
        by (simp add: nth_append)
      moreover have "i < length (map uri ?b)" "j < length (map uri ?b)"
        using True \<open>i < length ?b\<close> by simp_all
      ultimately have "i = j"
        using dist by (simp only: nth_eq_iff_index_eq)
      with ij show ?thesis by simp
    next
      case False
      then have "(?b @ cl) ! j = cl ! (j - length ?b)" by (simp add: nth_append)
      moreover have "j - length ?b < length cl" using False ij ge by simp
      ultimately have "(?b @ cl) ! j \<in> set cl" by simp
      with cl(1) nj show ?thesis by simp
    qed
  qed
  show ?thesis using len d1 d2 by blast
qed

lemma buildMatchedTrackPool_exact_length_unique_uris_witness:
  "\<not> isl (fst (buildMatchedTrackPool (demoServices anyTrack (Inr ''{}'') (tracksJson [('''', ''x'')]))
               ''chill'' (of_nat 5) (demoSeeds [''a'', ''b'']) w0))
   \<and> length (matched (projr (fst (buildMatchedTrackPool
               (demoServices anyTrack (Inr ''{}'') (tracksJson [('''', ''x'')]))
               ''chill'' (of_nat 5) (demoSeeds [''a'', ''b'']) w0)))) = 5
   \<and> uri (matched (projr (fst (buildMatchedTrackPool
               (demoServices anyTrack (Inr ''{}'') (tracksJson [('''', ''x'')]))
               ''chill'' (of_nat 5) (demoSeeds [''a'', ''b'']) w0))) ! 0)
     = uri (matched (projr (fst (buildMatchedTrackPool
               (demoServices anyTrack (Inr ''{}'') (tracksJson [('''', ''x'')]))
               ''chill'' (of_nat 5) (demoSeeds [''a'', ''b'']) w0))) ! 2)
   \<and> duplicated (matched (projr (fst (buildMatchedTrackPool
               (demoServices anyTrack (Inr ''{}'') (tracksJson [('''', ''x'')]))
               ''chill'' (of_nat 5) (demoSeeds [''a'', ''b'']) w0))) ! 2)"
proof -
  define run where
    "run = buildMatchedTrackPool (demoServices anyTrack (Inr ''{}'') (tracksJson [('''', ''x'')]))
               ''chill'' (of_nat 5) (demoSeeds [''a'', ''b'']) w0"
  have val: "fst run = Inr \<lparr>matched = [demoEntry ''a'', demoEntry ''b'', cloneEntry (demoEntry ''a''),
                                      cloneEntry (demoEntry ''b''), cloneEntry (demoEntry ''a'')],
                           unmatched = EMERGENCY_FALLBACK_TRACKS, duplicateFillCount = 3\<rparr>"
    unfolding run_def by (simp add: run_defs)
  then have ok: "\<not> isl (fst run)" by simp
  have u: "uri (matched (projr (fst run)) ! 0) = uri (matched (projr (fst run)) ! 2)"
    unfolding val by (simp add: cloneEntry_def)
  have "run = (Inr (projr (fst run)), snd run)" using ok by (rule run_split)
  then have eq: "buildMatchedTrackPool (demoServices anyTrack (Inr ''{}'') (tracksJson [('''', ''x'')]))
               ''chill'' (of_nat 5) (demoSeeds [''a'', ''b'']) w0 = (Inr (projr (fst run)), snd run)"
    unfolding run_def [symmetric] .
  note inst = buildMatchedTrackPool_exact_length_unique_uris [OF eq]
  from inst have len: "length (matched (projr (fst run))) = 5" by blast
  from inst have dup: "\<forall>i j. i < j \<and> j < length (matched (projr (fst run)))
                 \<and> uri (matched (projr (fst run)) ! i) = uri (matched (projr (fst run)) ! j)
              \<longrightarrow> duplicated (matched (projr (fst run)) ! j)"
    by blast
  have "(0::nat) < 2 \<and> 2 < length (matched (projr (fst run)))
          \<and> uri (matched (projr (fst run)) ! 0) = uri (matched (projr (fst run)) ! 2)"
    using len u by simp
  with dup have d2: "duplicated (matched (projr (fst run)) ! 2)" by (elim allE impE)
  show ?thesis unfolding run_def [symmetric] using ok len u d2 by (intro conjI)
qed

section \<open>The reconciliation run: failure for lack of matches\<close>

text \<open>
  C2 fails for the desired count 0: the pool is never short of 0, so the run skips the
  expansion rounds, the fallback and the duplicate fill, and returns the empty list.
\<close>

theorem buildMatchedTrackPool_zero_count_returns:
  "fst (buildMatchedTrackPool (demoServices noTrack (Inr ''{}'') (tracksJson [('''', ''x'')]))
          ''chill'' 0 [] w0)
   = Inr \<lparr>matched = [], unmatched = [], duplicateFillCount = 0\<rparr>"
  by (simp add: run_defs)

text \<open>
  C2, amended. A run fails with \<open>InsufficientMatchesError\<close> exactly when the pool is still
  short after fallback and duplicate fill; the error carries the achieved and the desired
  count; this happens exactly when the pool after fallback is empty and the desired count is
  positive, and then the achieved count is 0, no uri was ever used and every call of
  \<open>findSpotifyTrackUri\<close> of the run returned \<open>null\<close>. An error of seeding, expansion or
  fallback is passed on and is never \<open>InsufficientMatchesError\<close>. With the desired count 0
  the run never fails this way: when it returns, the matched list is empty and nothing was
  filled.
\<close>

theorem insufficient_matches_iff_nothing_resolved:
  assumes "buildMatchedTrackPool sv d desired seeds w = (r, w')"
  shows "(\<forall>a k. r = Inl (InsufficientMatchesError a k) \<longrightarrow>
            a = 0 \<and> k = desired \<and> 0 < desired
            \<and> (\<exists>p ev. fillPool sv d desired seeds (logEvent (BuildPool desired) w) = (Inr p, w')
                  \<and> matched p = [] \<and> usedUris p = {}
                  \<and> trace w' = trace w @ BuildPool desired # ev
                  \<and> (\<forall>c out. Resolve c out \<in> set ev \<longrightarrow> out = Inr None)))
       \<and> (\<forall>p. fillPool sv d desired seeds (logEvent (BuildPool desired) w) = (Inr p, w') \<longrightarrow>
            (\<exists>m cnt. duplicateFill desired (matched p) = Inr (m, cnt)
               \<and> (r = Inl (InsufficientMatchesError (length m) desired))
                   = (of_nat (length m) < desired)
               \<and> (of_nat (length m) < desired) = (matched p = [] \<and> 0 < desired)))
       \<and> (\<forall>e. fillPool sv d desired seeds (logEvent (BuildPool desired) w) = (Inl e, w')
            \<longrightarrow> r = Inl e \<and> \<not> isInsufficient e)
       \<and> (desired = 0 \<longrightarrow> (\<forall>e. r = Inl e \<longrightarrow> \<not> isInsufficient e)
             \<and> (\<forall>res. r = Inr res \<longrightarrow> matched res = [] \<and> duplicateFillCount res = 0))"
proof -
  from build_stage [OF assms] obtain f ev where
    f: "fillPool sv d desired seeds (logEvent (BuildPool desired) w) = (f, w')"
    and tr: "trace w' = trace w @ BuildPool desired # ev"
    and st: "stageOK emptyPool ev f"
    by blast
  show ?thesis
  proof (cases f)
    case (Inl e)
    with assms f have r: "r = Inl e" by (simp add: buildMatchedTrackPool_def)
    have ni: "\<not> isInsufficient e" using f Inl fill_err by blast
    show ?thesis using r ni f Inl by auto
  next
    case (Inr p)
    with assms f have r: "r = finishPool desired p" by (simp add: buildMatchedTrackPool_def)
    have inv: "poolInv p" using f Inr fill_inv by blast
    from finishPool_cases [of desired p] obtain cl where
      cl: "duplicateFill desired (matched p) = Inr (matched p @ cl, length cl)"
          "\<forall>e\<in>set cl. duplicated e"
          "matched p \<noteq> [] \<longrightarrow> \<not> of_nat (length (matched p @ cl)) < desired"
          "finishPool desired p =
             (if of_nat (length (matched p @ cl)) < desired
              then Inl (InsufficientMatchesError (length (matched p @ cl)) desired)
              else Inr \<lparr>matched = slice0 (matched p @ cl) desired, unmatched = unmatched p,
                        duplicateFillCount = length cl\<rparr>)"
      by blast
    have clempty: "matched p = [] \<Longrightarrow> cl = []"
      using cl(1) by (simp add: duplicateFill_empty)
    have used: "matched p = [] \<Longrightarrow> usedUris p = {}"
      using inv by (simp add: poolInv_def)
    have iff: "(of_nat (length (matched p @ cl)) < desired) = (matched p = [] \<and> 0 < desired)"
      using cl(3) clempty by (cases "matched p = []") auto
    have z: "desired = 0 \<Longrightarrow> cl = []"
      using cl(1) by (auto simp: duplicateFill_def)
    have s0: "\<And>xs :: entry list. slice0 xs 0 = []"
      by (simp add: slice0_def truncInt_def)
    have none: "usedUris p = {} \<Longrightarrow> \<forall>c out. Resolve c out \<in> set ev \<longrightarrow> out = Inr None"
      using st unfolding Inr stageOK_def resolvedIn_def by auto
    have c1: "\<forall>a k. r = Inl (InsufficientMatchesError a k) \<longrightarrow>
            a = 0 \<and> k = desired \<and> 0 < desired
            \<and> (\<exists>p ev. fillPool sv d desired seeds (logEvent (BuildPool desired) w) = (Inr p, w')
                  \<and> matched p = [] \<and> usedUris p = {}
                  \<and> trace w' = trace w @ BuildPool desired # ev
                  \<and> (\<forall>c out. Resolve c out \<in> set ev \<longrightarrow> out = Inr None))"
    proof (intro allI impI)
      fix a k assume ins: "r = Inl (InsufficientMatchesError a k)"
      with r cl(4) have sh: "of_nat (length (matched p @ cl)) < desired"
        and ak: "a = length (matched p @ cl)" "k = desired"
        by (auto split: if_splits)
      from sh iff have e: "matched p = []" "0 < desired" by auto
      with clempty ak have a0: "a = 0" by simp
      have "\<exists>p ev. fillPool sv d desired seeds (logEvent (BuildPool desired) w) = (Inr p, w')
                  \<and> matched p = [] \<and> usedUris p = {}
                  \<and> trace w' = trace w @ BuildPool desired # ev
                  \<and> (\<forall>c out. Resolve c out \<in> set ev \<longrightarrow> out = Inr None)"
        using f Inr e(1) used [OF e(1)] tr none [OF used [OF e(1)]] by blast
      with a0 ak(2) e(2) show "a = 0 \<and> k = desired \<and> 0 < desired
            \<and> (\<exists>p ev. fillPool sv d desired seeds (logEvent (BuildPool desired) w) = (Inr p, w')
                  \<and> matched p = [] \<and> usedUris p = {}
                  \<and> trace w' = trace w @ BuildPool desired # ev
                  \<and> (\<forall>c out. Resolve c out \<in> set ev \<longrightarrow> out = Inr None))"
        by blast
    qed
    have c2: "\<forall>p. fillPool sv d desired seeds (logEvent (BuildPool desired) w) = (Inr p, w') \<longrightarrow>
            (\<exists>m cnt. duplicateFill desired (matched p) = Inr (m, cnt)
               \<and> (r = Inl (InsufficientMatchesError (length m) desired))
                   = (of_nat (length m) < desired)
               \<and> (of_nat (length m) < desired) = (matched p = [] \<and> 0 < desired))"
    proof (intro allI impI)
      fix p' assume "fillPool sv d desired seeds (logEvent (BuildPool desired) w) = (Inr p', w')"
      with f Inr have pp: "p' = p" by simp
      have "(r = Inl (InsufficientMatchesError (length (matched p @ cl)) desired))
              = (of_nat (length (matched p @ cl)) < desired)"
        using r cl(4) by simp
      with cl(1) iff show "\<exists>m cnt. duplicateFill desired (matched p') = Inr (m, cnt)
               \<and> (r = Inl (InsufficientMatchesError (length m) desired))
                   = (of_nat (length m) < desired)
               \<and> (of_nat (length m) < desired) = (matched p' = [] \<and> 0 < desired)"
        unfolding pp by blast
    qed
    have c3: "\<forall>e. fillPool sv d desired seeds (logEvent (BuildPool desired) w) = (Inl e, w')
            \<longrightarrow> r = Inl e \<and> \<not> isInsufficient e"
      using f Inr by simp
    have c4: "desired = 0 \<longrightarrow> (\<forall>e. r = Inl e \<longrightarrow> \<not> isInsufficient e)
             \<and> (\<forall>res. r = Inr res \<longrightarrow> matched res = [] \<and> duplicateFillCount res = 0)"
      using r cl(4) z s0 by (auto split: if_splits)
    show ?thesis using c1 c2 c3 c4 by blast
  qed
qed

theorem insufficient_matches_iff_nothing_resolved_witness:
  "fst (buildMatchedTrackPool (demoServices noTrack (Inr ''{}'') (tracksJson [('''', ''x'')]))
          ''chill'' 5 [] w0) = Inl (InsufficientMatchesError 0 5)
   \<and> \<not> isl (fst (fillPool (demoServices noTrack (Inr ''{}'') (tracksJson [('''', ''x'')]))
                    ''chill'' 5 [] (logEvent (BuildPool 5) w0)))
   \<and> matched (projr (fst (fillPool (demoServices noTrack (Inr ''{}'') (tracksJson [('''', ''x'')]))
                    ''chill'' 5 [] (logEvent (BuildPool 5) w0)))) = []
   \<and> usedUris (projr (fst (fillPool (demoServices noTrack (Inr ''{}'') (tracksJson [('''', ''x'')]))
                    ''chill'' 5 [] (logEvent (BuildPool 5) w0)))) = {}"
proof -
  let ?sv = "demoServices noTrack (Inr ''{}'') (tracksJson [('''', ''x'')])"
  let ?run = "buildMatchedTrackPool ?sv ''chill'' 5 [] w0"
  have val: "fst ?run = Inl (InsufficientMatchesError 0 5)"
    by (simp add: run_defs)
  from insufficient_matches_iff_nothing_resolved [OF prod.collapse [symmetric], of ?sv "''chill''" 5 "[]" w0]
       val
  obtain p where "fillPool ?sv ''chill'' 5 [] (logEvent (BuildPool 5) w0) = (Inr p, snd ?run)"
    "matched p = []" "usedUris p = {}"
    by blast
  then have "\<not> isl (fst (fillPool ?sv ''chill'' 5 [] (logEvent (BuildPool 5) w0)))"
    "matched (projr (fst (fillPool ?sv ''chill'' 5 [] (logEvent (BuildPool 5) w0)))) = []"
    "usedUris (projr (fst (fillPool ?sv ''chill'' 5 [] (logEvent (BuildPool 5) w0)))) = {}"
    by simp_all
  with val show ?thesis by blast
qed


section \<open>The reconciliation run: expansion rounds\<close>

text \<open>
  C5. The requests of a run are the calls of \<open>generateTracklist\<close> that the run makes, as
  \<open>generateTracklist\<close> logs them with the arguments it receives, each with the pool at the
  time of the call (the pool that the resolutions logged before the call produce). In
  every run of \<open>buildMatchedTrackPool\<close>:
  \<^item> there are at most 8 requests (one per expansion round);
  \<^item> the count of a request is \<open>Math.min(50, Math.max(needed * 3, 8))\<close> for
    \<open>needed = desiredCount - matched.length\<close>, in the arithmetic of the source; for an
    integer desired count this is the exact value \<open>min(50, max(needed * 3, 8))\<close>;
  \<^item> the exclusions of a request are the first 80 of the requested candidates of the
    matched entries followed by the unmatched candidates;
  \<^item> a request is only made while the pool is short; and the rounds stop before the eighth
    only when the pool is no longer short or a call has failed;
  \<^item> a round entered with the pool \<open>p\<close> begins with such a call, made from \<open>p\<close>.
\<close>

theorem expansion_round_requests:
  assumes "buildMatchedTrackPool sv d desired seeds w = (r, w')"
  shows "\<exists>ev. trace w' = trace w @ BuildPool desired # ev
       \<and> length (requestsOf emptyPool ev) \<le> 8
       \<and> (\<forall>q n x. (q, n, x) \<in> set (requestsOf emptyPool ev) \<longrightarrow>
            Fin n = mathMin (Fin 50)
                      (mathMax (jsTimes (jsMinus (Fin desired) (Fin (of_nat (length (matched q)))))
                                  (Fin 3)) (Fin 8))
            \<and> x = take 80 (map requested (matched q) @ unmatched q)
            \<and> of_nat (length (matched q)) < desired
            \<and> (\<forall>k. desired = of_nat k \<and> k < 2 ^ 51 \<longrightarrow>
                  n = min 50 (max ((desired - of_nat (length (matched q))) * 3) 8)))
       \<and> ((\<forall>e. r = Inl e \<longrightarrow> isInsufficient e) \<and> length (requestsOf emptyPool ev) < 8
            \<longrightarrow> \<not> of_nat (length (matched (poolAfter emptyPool ev))) < desired)
       \<and> (\<forall>attempt p w1. of_nat (length (matched p)) < desired \<and> attempt < 8 \<longrightarrow>
            (\<exists>n rest.
                trace (snd (expandLoop sv d desired attempt p w1))
                  = trace w1 @ Generate n (take 80 (map requested (matched p) @ unmatched p)) # rest
                \<and> Fin n = mathMin (Fin 50)
                            (mathMax (jsTimes (jsMinus (Fin desired)
                                                 (Fin (of_nat (length (matched p))))) (Fin 3))
                               (Fin 8))))"
proof -
  from build_requests [OF assms] obtain ev where
    ev: "trace w' = trace w @ BuildPool desired # ev"
      "length (requestsOf emptyPool ev) \<le> 8"
      "\<forall>q n x. (q, n, x) \<in> set (requestsOf emptyPool ev) \<longrightarrow>
         n = generateCountFor desired q \<and> x = excludedTracksFor q \<and> poolShort desired q"
      "(\<forall>e. r = Inl e \<longrightarrow> isInsufficient e) \<and> length (requestsOf emptyPool ev) < 8
         \<longrightarrow> \<not> poolShort desired (poolAfter emptyPool ev)"
    by blast
  have b: "\<forall>q n x. (q, n, x) \<in> set (requestsOf emptyPool ev) \<longrightarrow>
            Fin n = mathMin (Fin 50)
                      (mathMax (jsTimes (jsMinus (Fin desired) (Fin (of_nat (length (matched q)))))
                                  (Fin 3)) (Fin 8))
            \<and> x = take 80 (map requested (matched q) @ unmatched q)
            \<and> of_nat (length (matched q)) < desired
            \<and> (\<forall>k. desired = of_nat k \<and> k < 2 ^ 51 \<longrightarrow>
                  n = min 50 (max ((desired - of_nat (length (matched q))) * 3) 8))"
  proof (intro allI impI)
    fix q n x assume "(q, n, x) \<in> set (requestsOf emptyPool ev)"
    with ev(3) have n: "n = generateCountFor desired q" and x: "x = excludedTracksFor q"
      and s: "poolShort desired q" by blast+
    have 1: "Fin n = mathMin (Fin 50)
                      (mathMax (jsTimes (jsMinus (Fin desired) (Fin (of_nat (length (matched q)))))
                                  (Fin 3)) (Fin 8))"
      unfolding n using generateCountFor_finite [of desired q] by simp
    have 2: "x = take 80 (map requested (matched q) @ unmatched q)"
      unfolding x by (simp only: excludedTracksFor_def)
    have 3: "of_nat (length (matched q)) < desired" using s by (simp only: poolShort_def)
    have 4: "\<forall>k. desired = of_nat k \<and> k < 2 ^ 51 \<longrightarrow>
                  n = min 50 (max ((desired - of_nat (length (matched q))) * 3) 8)"
    proof (intro allI impI)
      fix k :: nat assume k: "desired = of_nat k \<and> k < 2 ^ 51"
      with 3 have "(of_nat (length (matched q)) :: rat) < of_nat k" by simp
      then have "length (matched q) < k" by (simp only: of_nat_less_iff)
      from generateCountFor_integral [OF this] k
      show "n = min 50 (max ((desired - of_nat (length (matched q))) * 3) 8)"
        unfolding n by simp
    qed
    show "Fin n = mathMin (Fin 50)
                      (mathMax (jsTimes (jsMinus (Fin desired) (Fin (of_nat (length (matched q)))))
                                  (Fin 3)) (Fin 8))
            \<and> x = take 80 (map requested (matched q) @ unmatched q)
            \<and> of_nat (length (matched q)) < desired
            \<and> (\<forall>k. desired = of_nat k \<and> k < 2 ^ 51 \<longrightarrow>
                  n = min 50 (max ((desired - of_nat (length (matched q))) * 3) 8))"
      using 1 2 3 4 by (intro conjI)
  qed
  have c: "(\<forall>e. r = Inl e \<longrightarrow> isInsufficient e) \<and> length (requestsOf emptyPool ev) < 8
            \<longrightarrow> \<not> of_nat (length (matched (poolAfter emptyPool ev))) < desired"
    using ev(4) by (simp only: poolShort_def)
  have d: "\<forall>attempt p w1. of_nat (length (matched p)) < desired \<and> attempt < 8 \<longrightarrow>
            (\<exists>n rest.
                trace (snd (expandLoop sv d desired attempt p w1))
                  = trace w1 @ Generate n (take 80 (map requested (matched p) @ unmatched p)) # rest
                \<and> Fin n = mathMin (Fin 50)
                            (mathMax (jsTimes (jsMinus (Fin desired)
                                                 (Fin (of_nat (length (matched p))))) (Fin 3))
                               (Fin 8)))"
  proof (intro allI impI)
    fix attempt :: nat and p :: pool and w1 :: "'a world"
    assume a: "of_nat (length (matched p)) < desired \<and> attempt < 8"
    then have "poolShort desired p" "attempt < 8" by (simp_all add: poolShort_def)
    from expand_first_request [OF this, of sv d w1] obtain rest where
      "trace (snd (expandLoop sv d desired attempt p w1))
         = trace w1 @ Generate (generateCountFor desired p) (excludedTracksFor p) # rest"
      by blast
    then have "trace (snd (expandLoop sv d desired attempt p w1))
         = trace w1 @ Generate (generateCountFor desired p)
                        (take 80 (map requested (matched p) @ unmatched p)) # rest"
      by (simp only: excludedTracksFor_def)
    moreover have "Fin (generateCountFor desired p)
        = mathMin (Fin 50)
            (mathMax (jsTimes (jsMinus (Fin desired) (Fin (of_nat (length (matched p)))))
                        (Fin 3)) (Fin 8))"
      using generateCountFor_finite [of desired p] by simp
    ultimately show "\<exists>n rest.
                trace (snd (expandLoop sv d desired attempt p w1))
                  = trace w1 @ Generate n (take 80 (map requested (matched p) @ unmatched p)) # rest
                \<and> Fin n = mathMin (Fin 50)
                            (mathMax (jsTimes (jsMinus (Fin desired)
                                                 (Fin (of_nat (length (matched p))))) (Fin 3))
                               (Fin 8))"
      by blast
  qed
  show ?thesis using ev(1) ev(2) b c d by blast
qed

theorem expansion_round_requests_witness:
  "requestsOf emptyPool (tl (trace (snd (buildMatchedTrackPool
          (demoServices anyTrack (Inr ''{}'')
             (tracksJson [(''a'', ''zz''), (''b'', ''zz''), (''c'', ''zz''), (''d'', ''zz''),
                          (''e'', ''zz'')]))
          ''chill'' 5 [\<lparr>title = ''q'', artist = ''qq''\<rparr>] w0))))
     = [(\<lparr>matched = [], unmatched = [\<lparr>title = ''q'', artist = ''qq''\<rparr>], usedUris = {},
          attemptedTrackKeys = {''q|qq''}\<rparr>, 15, [\<lparr>title = ''q'', artist = ''qq''\<rparr>])]
   \<and> Fin 15 = mathMin (Fin 50)
                (mathMax (jsTimes (jsMinus (Fin 5) (Fin (of_nat (length ([] :: entry list)))))
                            (Fin 3)) (Fin 8))
   \<and> (15 :: rat) = min 50 (max ((5 - of_nat (length ([] :: entry list))) * 3) 8)
   \<and> \<not> of_nat (length (matched (poolAfter emptyPool (tl (trace (snd (buildMatchedTrackPool
          (demoServices anyTrack (Inr ''{}'')
             (tracksJson [(''a'', ''zz''), (''b'', ''zz''), (''c'', ''zz''), (''d'', ''zz''),
                          (''e'', ''zz'')]))
          ''chill'' 5 [\<lparr>title = ''q'', artist = ''qq''\<rparr>] w0))))))) < (5 :: rat)
   \<and> (\<exists>n rest. trace (snd (expandLoop
          (demoServices anyTrack (Inr ''{}'')
             (tracksJson [(''a'', ''zz''), (''b'', ''zz''), (''c'', ''zz''), (''d'', ''zz''),
                          (''e'', ''zz'')]))
          ''chill'' 5 0 emptyPool w0)) = trace w0 @ Generate n [] # rest
        \<and> Fin n = mathMin (Fin 50)
                    (mathMax (jsTimes (jsMinus (Fin 5) (Fin (of_nat (length ([] :: entry list)))))
                                (Fin 3)) (Fin 8)))"
proof -
  define sv where
    "sv = demoServices anyTrack (Inr ''{}'')
             (tracksJson [(''a'', ''zz''), (''b'', ''zz''), (''c'', ''zz''), (''d'', ''zz''),
                          (''e'', ''zz'')])"
  define run where "run = buildMatchedTrackPool sv ''chill'' 5 [\<lparr>title = ''q'', artist = ''qq''\<rparr>] w0"
  define q where
    "q = \<lparr>matched = [], unmatched = [\<lparr>title = ''q'', artist = ''qq''\<rparr>], usedUris = {},
          attemptedTrackKeys = {''q|qq''}\<rparr>"
  have tr: "trace (snd run)
      = [BuildPool 5,
         Resolve \<lparr>title = ''q'', artist = ''qq''\<rparr> (Inr None),
         Generate 15 [\<lparr>title = ''q'', artist = ''qq''\<rparr>],
         Round 1 q 15 [\<lparr>title = ''q'', artist = ''qq''\<rparr>]
           (Inr (demoSeeds [''a'', ''b'', ''c'', ''d'', ''e''])),
         Resolve \<lparr>title = ''a'', artist = ''zz''\<rparr>
           (Inr (Some \<lparr>uri = ''track:a artist:zz'', matchedName = ''n - zz''\<rparr>)),
         Resolve \<lparr>title = ''b'', artist = ''zz''\<rparr>
           (Inr (Some \<lparr>uri = ''track:b artist:zz'', matchedName = ''n - zz''\<rparr>)),
         Resolve \<lparr>title = ''c'', artist = ''zz''\<rparr>
           (Inr (Some \<lparr>uri = ''track:c artist:zz'', matchedName = ''n - zz''\<rparr>)),
         Resolve \<lparr>title = ''d'', artist = ''zz''\<rparr>
           (Inr (Some \<lparr>uri = ''track:d artist:zz'', matchedName = ''n - zz''\<rparr>)),
         Resolve \<lparr>title = ''e'', artist = ''zz''\<rparr>
           (Inr (Some \<lparr>uri = ''track:e artist:zz'', matchedName = ''n - zz''\<rparr>))]"
    unfolding run_def sv_def q_def by (simp add: run_defs)
  have ok: "\<not> isl (fst run)"
    unfolding run_def sv_def by (simp add: run_defs)
  have rq: "requestsOf emptyPool (tl (trace (snd run)))
            = [(q, 15, [\<lparr>title = ''q'', artist = ''qq''\<rparr>])]"
    unfolding tr q_def by (simp add: emptyPool_def pushMatch_def demo_keys)
  have eq: "buildMatchedTrackPool sv ''chill'' 5 [\<lparr>title = ''q'', artist = ''qq''\<rparr>] w0
            = (fst run, snd run)"
    unfolding run_def by simp
  note inst = expansion_round_requests [OF eq]
  from inst obtain ev where
    ev: "trace (snd run) = trace w0 @ BuildPool 5 # ev"
      "\<forall>q n x. (q, n, x) \<in> set (requestsOf emptyPool ev) \<longrightarrow>
            Fin n = mathMin (Fin 50)
                      (mathMax (jsTimes (jsMinus (Fin 5) (Fin (of_nat (length (matched q)))))
                                  (Fin 3)) (Fin 8))
            \<and> x = take 80 (map requested (matched q) @ unmatched q)
            \<and> of_nat (length (matched q)) < (5 :: rat)
            \<and> (\<forall>k. (5 :: rat) = of_nat k \<and> k < 2 ^ 51 \<longrightarrow>
                  n = min 50 (max ((5 - of_nat (length (matched q))) * 3) 8))"
      "(\<forall>e. fst run = Inl e \<longrightarrow> isInsufficient e) \<and> length (requestsOf emptyPool ev) < 8
            \<longrightarrow> \<not> of_nat (length (matched (poolAfter emptyPool ev))) < (5 :: rat)"
      "\<forall>attempt p w1. of_nat (length (matched p)) < (5 :: rat) \<and> attempt < 8 \<longrightarrow>
            (\<exists>n rest.
                trace (snd (expandLoop sv ''chill'' 5 attempt p w1))
                  = trace w1 @ Generate n (take 80 (map requested (matched p) @ unmatched p)) # rest
                \<and> Fin n = mathMin (Fin 50)
                            (mathMax (jsTimes (jsMinus (Fin 5)
                                                 (Fin (of_nat (length (matched p))))) (Fin 3))
                               (Fin 8)))"
    by blast
  have evt: "ev = tl (trace (snd run))" using ev(1) by (simp add: w0_def)
  have mem: "(q, 15, [\<lparr>title = ''q'', artist = ''qq''\<rparr>]) \<in> set (requestsOf emptyPool ev)"
    unfolding evt rq by simp
  from ev(2) mem have m1: "Fin 15 = mathMin (Fin 50)
                      (mathMax (jsTimes (jsMinus (Fin 5) (Fin (of_nat (length (matched q)))))
                                  (Fin 3)) (Fin 8))"
    and m2: "\<forall>k. (5 :: rat) = of_nat k \<and> k < 2 ^ 51 \<longrightarrow>
                  (15 :: rat) = min 50 (max ((5 - of_nat (length (matched q))) * 3) 8)"
    by blast+
  have "(5 :: rat) = of_nat 5 \<and> (5 :: nat) < 2 ^ 51" by simp
  with m2 have m3: "(15 :: rat) = min 50 (max ((5 - of_nat (length (matched q))) * 3) 8)"
    by blast
  have mq: "matched q = []" by (simp add: q_def)
  have a: "Fin 15 = mathMin (Fin 50)
                (mathMax (jsTimes (jsMinus (Fin 5) (Fin (of_nat (length ([] :: entry list)))))
                            (Fin 3)) (Fin 8))"
    using m1 unfolding mq .
  have b: "(15 :: rat) = min 50 (max ((5 - of_nat (length ([] :: entry list))) * 3) 8)"
    using m3 unfolding mq .
  have "\<forall>e. fst run = Inl e \<longrightarrow> isInsufficient e" using ok by (cases "fst run") simp_all
  moreover have "length (requestsOf emptyPool ev) < 8" unfolding evt rq by simp
  ultimately have c: "\<not> of_nat (length (matched (poolAfter emptyPool (tl (trace (snd run))))))
                        < (5 :: rat)"
    using ev(3) unfolding evt by blast
  have "of_nat (length (matched emptyPool)) < (5 :: rat) \<and> (0 :: nat) < 8"
    by (simp add: emptyPool_def)
  with ev(4) obtain n rest where
    "trace (snd (expandLoop sv ''chill'' 5 0 emptyPool w0))
       = trace w0 @ Generate n (take 80 (map requested (matched emptyPool) @ unmatched emptyPool))
                      # rest"
    "Fin n = mathMin (Fin 50)
                (mathMax (jsTimes (jsMinus (Fin 5) (Fin (of_nat (length (matched emptyPool)))))
                            (Fin 3)) (Fin 8))"
    by blast
  then have d: "\<exists>n rest. trace (snd (expandLoop sv ''chill'' 5 0 emptyPool w0))
          = trace w0 @ Generate n [] # rest
        \<and> Fin n = mathMin (Fin 50)
                    (mathMax (jsTimes (jsMinus (Fin 5) (Fin (of_nat (length ([] :: entry list)))))
                                (Fin 3)) (Fin 8))"
    by (auto simp: emptyPool_def)
  show ?thesis
    using rq a b c d unfolding run_def sv_def q_def by (intro conjI)
qed

section \<open>The reconciliation run: a failed generation call\<close>

text \<open>
  C3 fails: \<open>buildMatchedTrackPool\<close> has no handler around the call of
  \<open>generateTracklist\<close>. When the generation call of the first round is rejected, the run
  ends with that error after this one round.
\<close>

theorem generation_failure_aborts_run:
  "buildMatchedTrackPool (demoServices noTrack (Inl ''unavailable'') JNull) ''chill'' 5 [] w0
   = (Inl (GenerationCallError ''unavailable''),
      \<lparr>ext = (),
       trace = [BuildPool 5, Generate 15 [],
                Round 1 emptyPool 15 [] (Inl (GenerationCallError ''unavailable''))]\<rparr>)"
  by (simp add: run_defs)

text \<open>
  C3, amended. When a generation call raises during an expansion round, the error is
  passed on to the caller of \<open>buildMatchedTrackPool\<close>: the loop returns that error at once,
  the run returns the same error, and the failed round is the last thing the run does (no
  further round, no fallback, no duplicate fill).
\<close>

theorem generation_failure_propagates:
  assumes "buildMatchedTrackPool sv d desired seeds w = (r, w')"
  shows "(\<exists>ev. trace w' = trace w @ ev
            \<and> (\<forall>n q c x e. Round n q c x (Inl e) \<in> set ev \<longrightarrow>
                  r = Inl e \<and> last ev = Round n q c x (Inl e)))
       \<and> (\<forall>attempt p w1 w2 e.
             poolShort desired p \<and> attempt < 8
             \<and> generateTracklist sv d (generateCountFor desired p) (excludedTracksFor p) w1
                 = (Inl e, w2)
             \<longrightarrow> fst (expandLoop sv d desired attempt p w1) = Inl e)"
proof -
  from build_trace [OF assms] obtain ev where
    ev: "trace w' = trace w @ BuildPool desired # ev" "expansionTrace desired 0 r ev"
    by blast
  have "\<forall>n q c x e. Round n q c x (Inl e) \<in> set (BuildPool desired # ev) \<longrightarrow>
            r = Inl e \<and> last (BuildPool desired # ev) = Round n q c x (Inl e)"
  proof (intro allI impI)
    fix n q c x e assume "Round n q c x (Inl e) \<in> set (BuildPool desired # ev)"
    then have i: "Round n q c x (Inl e) \<in> set ev" by simp
    then have "ev \<noteq> []" by auto
    moreover from i ev(2) have "r = Inl e \<and> last ev = Round n q c x (Inl e)"
      unfolding expansionTrace_def by blast
    ultimately show "r = Inl e \<and> last (BuildPool desired # ev) = Round n q c x (Inl e)"
      by simp
  qed
  with ev(1) have a: "\<exists>ev. trace w' = trace w @ ev
            \<and> (\<forall>n q c x e. Round n q c x (Inl e) \<in> set ev \<longrightarrow>
                  r = Inl e \<and> last ev = Round n q c x (Inl e))"
    by blast
  have b: "\<forall>attempt p w1 w2 e.
             poolShort desired p \<and> attempt < 8
             \<and> generateTracklist sv d (generateCountFor desired p) (excludedTracksFor p) w1
                 = (Inl e, w2)
             \<longrightarrow> fst (expandLoop sv d desired attempt p w1) = Inl e"
    by (simp add: expand_generation_failure)
  show ?thesis using a b by (rule conjI)
qed

theorem generation_failure_propagates_witness:
  "Round 1 emptyPool 15 [] (Inl (GenerationCallError ''unavailable''))
     \<in> set (trace (snd (buildMatchedTrackPool
          (demoServices noTrack (Inl ''unavailable'') JNull) ''chill'' 5 [] w0)))
   \<and> fst (buildMatchedTrackPool (demoServices noTrack (Inl ''unavailable'') JNull)
            ''chill'' 5 [] w0) = Inl (GenerationCallError ''unavailable'')
   \<and> last (trace (snd (buildMatchedTrackPool
          (demoServices noTrack (Inl ''unavailable'') JNull) ''chill'' 5 [] w0)))
       = Round 1 emptyPool 15 [] (Inl (GenerationCallError ''unavailable''))
   \<and> fst (expandLoop (demoServices noTrack (Inl ''unavailable'') JNull) ''chill'' 5 0
            emptyPool w0) = Inl (GenerationCallError ''unavailable'')"
proof -
  define sv where "sv = demoServices noTrack (Inl ''unavailable'') JNull"
  define run where "run = buildMatchedTrackPool sv ''chill'' 5 [] w0"
  define rd where "rd = Round 1 emptyPool 15 [] (Inl (GenerationCallError ''unavailable''))"
  have mem: "rd \<in> set (trace (snd run))"
    unfolding run_def rd_def sv_def by (simp add: run_defs)
  have eq: "buildMatchedTrackPool sv ''chill'' 5 [] w0 = (fst run, snd run)"
    unfolding run_def by simp
  note inst = generation_failure_propagates [OF eq]
  from inst obtain ev where
    ev: "trace (snd run) = trace w0 @ ev"
      "\<forall>n q c x e. Round n q c x (Inl e) \<in> set ev \<longrightarrow>
                  fst run = Inl e \<and> last ev = Round n q c x (Inl e)"
    by blast
  have tr: "ev = trace (snd run)" using ev(1) by (simp add: w0_def)
  have "Round 1 emptyPool 15 [] (Inl (GenerationCallError ''unavailable'')) \<in> set ev"
    using mem unfolding tr rd_def .
  with ev(2) have a: "fst run = Inl (GenerationCallError ''unavailable'')"
    and b: "last (trace (snd run)) = rd"
    unfolding tr rd_def by blast+
  have g: "poolShort 5 emptyPool \<and> (0::nat) < 8
           \<and> generateTracklist sv ''chill'' (generateCountFor 5 emptyPool)
                (excludedTracksFor emptyPool) w0
               = (Inl (GenerationCallError ''unavailable''), logEvent (Generate 15 []) w0)"
    unfolding sv_def by (simp add: run_defs)
  with inst have c: "fst (expandLoop sv ''chill'' 5 0 emptyPool w0)
                     = Inl (GenerationCallError ''unavailable'')"
    by blast
  show ?thesis
    using mem a b c unfolding run_def rd_def sv_def by (intro conjI)
qed

section \<open>Candidate generator: the post-filter\<close>





section \<open>Duplicate fill\<close>

text \<open>
  C6 (duplicate fill runs until the matched length equals the desired count) fails for a
  desired count that is not an integer. With two matches and the count 7.5 the loop stops
  at length 8, the first length that is not below 7.5, having added 6 clones; the returned
  list is cut to 7 entries, so its length is not the desired count and it holds 5 clones
  where \<open>duplicateFillCount\<close> is 6. The first equation is the whole run, the second its
  last stage alone.
\<close>

theorem duplicate_fill_fractional_count:
  "fst (buildMatchedTrackPool (demoServices anyTrack (Inr ''{}'') (tracksJson [('''', ''x'')]))
          ''chill'' (15 / 2) (demoSeeds [''a'', ''b'']) w0)
   = Inr \<lparr>matched = [demoEntry ''a'', demoEntry ''b'', cloneEntry (demoEntry ''a''),
                     cloneEntry (demoEntry ''b''), cloneEntry (demoEntry ''a''),
                     cloneEntry (demoEntry ''b''), cloneEntry (demoEntry ''a'')],
          unmatched = EMERGENCY_FALLBACK_TRACKS, duplicateFillCount = 6\<rparr>
   \<and> finishPool (15 / 2) (demoPool [''a'', ''b''])
   = Inr \<lparr>matched = [demoEntry ''a'', demoEntry ''b'', cloneEntry (demoEntry ''a''),
                     cloneEntry (demoEntry ''b''), cloneEntry (demoEntry ''a''),
                     cloneEntry (demoEntry ''b''), cloneEntry (demoEntry ''a'')],
          unmatched = [], duplicateFillCount = 6\<rparr>"
  by (simp add: run_defs)

text \<open>
  In general, whenever the pool is still short after fallback and at least one match
  exists, duplicate fill appends clones of the matched entries, taken round-robin in their
  original order, each marked \<open>duplicated\<close> and with \<open>(duplicate fill)\<close> appended to its
  display name, until the length is no longer below the desired count, that is until it
  is the least integer not below it; the count returned with the filled list is the number
  of clones added. When the desired count is an integer, the length reached equals it and
  the run returns the filled list with that count as \<open>duplicateFillCount\<close>.
\<close>

lemma duplicate_fill_round_robin:
  assumes "of_nat (length (matched p)) < desired" and "matched p \<noteq> []"
  shows "\<exists>m. duplicateFill desired (matched p) = Inr (m, length m - length (matched p))
       \<and> length m = nat \<lceil>desired\<rceil>
       \<and> take (length (matched p)) m = matched p
       \<and> (\<forall>i. i < length m - length (matched p) \<longrightarrow>
            duplicated (m ! (length (matched p) + i))
            \<and> uri (m ! (length (matched p) + i)) = uri (matched p ! (i mod length (matched p)))
            \<and> requested (m ! (length (matched p) + i))
                = requested (matched p ! (i mod length (matched p)))
            \<and> matchedName (m ! (length (matched p) + i))
                = matchedName (matched p ! (i mod length (matched p))) @ '' (duplicate fill)'')
       \<and> (\<forall>n. desired = of_nat n \<longrightarrow>
            length m = n
            \<and> finishPool desired p =
                Inr \<lparr>matched = m, unmatched = unmatched p,
                     duplicateFillCount = n - length (matched p)\<rparr>)"
proof -
  let ?b = "matched p"
  let ?k = "nat \<lceil>desired\<rceil> - length ?b"
  let ?cl = "map (\<lambda>i. cloneEntry (?b ! (i mod length ?b))) [0 ..< 0 + ?k]"
  let ?m = "?b @ ?cl"
  have lt: "length ?b < nat \<lceil>desired\<rceil>" using assms(1) by (simp add: short_iff)
  have df: "duplicateFill desired ?b = Inr (?m, ?k)"
    using assms dupFillLoop_eq [OF assms(2), of desired ?b 0 0] by (simp add: duplicateFill_def)
  have len: "length ?m = nat \<lceil>desired\<rceil>" using lt by simp
  have k: "length ?m - length ?b = ?k" by simp
  have a: "duplicateFill desired ?b = Inr (?m, length ?m - length ?b)"
    using df by (simp only: k)
  have b: "take (length ?b) ?m = ?b" by simp
  have c: "\<forall>i. i < length ?m - length ?b \<longrightarrow>
            duplicated (?m ! (length ?b + i))
            \<and> uri (?m ! (length ?b + i)) = uri (?b ! (i mod length ?b))
            \<and> requested (?m ! (length ?b + i)) = requested (?b ! (i mod length ?b))
            \<and> matchedName (?m ! (length ?b + i))
                = matchedName (?b ! (i mod length ?b)) @ '' (duplicate fill)''"
    by (simp add: cloneEntry_def)
  have d: "\<forall>n. desired = of_nat n \<longrightarrow>
            length ?m = n
            \<and> finishPool desired p =
                Inr \<lparr>matched = ?m, unmatched = unmatched p, duplicateFillCount = n - length ?b\<rparr>"
  proof (intro allI impI)
    fix n assume n: "desired = of_nat n"
    then have c: "nat \<lceil>desired\<rceil> = n" by simp
    have ln: "length ?m = n" using len c by simp
    have ns: "\<not> of_nat (length ?m) < desired" unfolding ln n by simp
    have sl: "slice0 ?m desired = ?m" unfolding n slice0_of_nat using ln by simp
    have "finishPool desired p
          = Inr \<lparr>matched = ?m, unmatched = unmatched p, duplicateFillCount = n - length ?b\<rparr>"
      using df ns sl c by (simp add: finishPool_def)
    with ln show "length ?m = n \<and> finishPool desired p =
                Inr \<lparr>matched = ?m, unmatched = unmatched p, duplicateFillCount = n - length ?b\<rparr>"
      by blast
  qed
  show ?thesis using a len b c d by blast
qed

lemma duplicate_fill_round_robin_witness:
  "\<not> isl (finishPool 8 (demoPool [''a'', ''b'']))
   \<and> length (matched (projr (finishPool 8 (demoPool [''a'', ''b'']))) ) = 8
   \<and> duplicateFillCount (projr (finishPool 8 (demoPool [''a'', ''b'']))) = 6
   \<and> duplicated (matched (projr (finishPool 8 (demoPool [''a'', ''b'']))) ! 5)
   \<and> uri (matched (projr (finishPool 8 (demoPool [''a'', ''b'']))) ! 5) = uri (demoEntry ''b'')"
proof -
  define p where "p = demoPool [''a'', ''b'']"
  have mp: "matched p = [demoEntry ''a'', demoEntry ''b'']"
    unfolding p_def by (simp add: demoPool_def)
  have h1: "of_nat (length (matched p)) < (8 :: rat)" unfolding mp by simp
  have h2: "matched p \<noteq> []" unfolding mp by simp
  from duplicate_fill_round_robin [OF h1 h2] obtain m where
    m: "\<forall>i. i < length m - length (matched p) \<longrightarrow>
            duplicated (m ! (length (matched p) + i))
            \<and> uri (m ! (length (matched p) + i)) = uri (matched p ! (i mod length (matched p)))"
       "\<forall>n. (8 :: rat) = of_nat n \<longrightarrow>
            length m = n
            \<and> finishPool 8 p =
                Inr \<lparr>matched = m, unmatched = unmatched p,
                     duplicateFillCount = n - length (matched p)\<rparr>"
    by blast
  have "(8 :: rat) = of_nat 8" by simp
  with m(2) have len: "length m = 8"
    and fin: "finishPool 8 p = Inr \<lparr>matched = m, unmatched = unmatched p,
                                     duplicateFillCount = 8 - length (matched p)\<rparr>"
    by blast+
  have "(3 :: nat) < length m - length (matched p)" unfolding len mp by simp
  with m(1) have "duplicated (m ! (length (matched p) + 3))
            \<and> uri (m ! (length (matched p) + 3)) = uri (matched p ! (3 mod length (matched p)))"
    by blast
  then have d: "duplicated (m ! 5)" and u: "uri (m ! 5) = uri (demoEntry ''b'')"
    unfolding mp by (simp_all add: mod_Suc eval_nat_numeral)
  have c: "duplicateFillCount (projr (finishPool 8 p)) = 6"
    unfolding fin mp by simp
  have "\<not> isl (finishPool 8 p)" "length (matched (projr (finishPool 8 p))) = 8"
    "duplicated (matched (projr (finishPool 8 p)) ! 5)"
    "uri (matched (projr (finishPool 8 p)) ! 5) = uri (demoEntry ''b'')"
    unfolding fin using len d u by simp_all
  with c show ?thesis unfolding p_def by (intro conjI)
qed

section \<open>The attempted-keys gate\<close>

lemma buildMatchedTrackPool_resolves_each_key_once:
  assumes "buildMatchedTrackPool sv d desired seeds w = (r, w')"
  shows "\<exists>ev. trace w' = trace w @ ev \<and> distinct (resolvedKeys ev)"
proof -
  from build_stage [OF assms] obtain f ev where
    "trace w' = trace w @ BuildPool desired # ev" "stageOK emptyPool ev f" by blast
  then show ?thesis
    by (intro exI [of _ "BuildPool desired # ev"]) (simp add: stageOK_def resolvedKeys_BuildPool)
qed

text \<open>
  C9 holds of \<open>matchCandidatesToSpotify\<close>, and so of every run of
  \<open>buildMatchedTrackPool\<close> (the lemma above: the keys handed to \<open>findSpotifyTrackUri\<close>
  during a run are pairwise distinct). The handler of \<open>/api/preview-playlist\<close> keeps the
  same set of attempted keys but never skips on it: when the generator returns
  \<open>Dreams\<close> by \<open>zz\<close> and \<open>dreams!\<close> by \<open>ZZ\<close>, which have the same key, the preview calls
  \<open>findSpotifyTrackUri\<close> for both, where \<open>matchCandidatesToSpotify\<close> calls it once.
\<close>

theorem preview_resolves_same_key_twice:
  "resolvedKeys (trace (snd (previewPlaylist
     (demoServices anyTrack (Inr ''{}'') (tracksJson [(''Dreams'', ''zz''), (''dreams!'', ''ZZ'')]))
     ''chill'' (JNum (Fin 5)) w0))) = [''dreams|zz'', ''dreams|zz'']
   \<and> resolvedKeys (trace (snd (matchCandidatesToSpotify
     (demoServices anyTrack (Inr ''{}'') (tracksJson [(''Dreams'', ''zz''), (''dreams!'', ''ZZ'')]))
     [\<lparr>title = ''Dreams'', artist = ''zz''\<rparr>, \<lparr>title = ''dreams!'', artist = ''ZZ''\<rparr>]
     emptyPool w0))) = [''dreams|zz'']"
  by (simp add: run_defs)

section \<open>The clamp and the callers of the engine\<close>




end
